theory Spec2Isabelle
  imports Main "HOL-Library.AList"
begin

section \<open>Keyboard events, listening targets and the environment\<close>

text \<open>
  The hotkey manager (\<^verbatim>\<open>HotkeyManager\<close>) is embedded as explicit state passing over a
  record of its fields. The browser objects it observes are data: a listening target or
  an event origin is an \<open>EventTarget\<close> reference, compared by identity as \<^verbatim>\<open>===\<close> does.
  \<open>Stub n\<close> is the placeholder object \<^verbatim>\<open>{} as Document\<close> that \<^verbatim>\<open>register\<close> creates when
  there is no \<^verbatim>\<open>document\<close>; each such object is a new one.
\<close>

datatype platform = Mac | Windows | Linux

datatype eventKind = Keydown | Keyup

datatype EventTarget = Document | Window | Element nat | Stub nat

datatype elementClass =
  HTMLInputElement | HTMLTextAreaElement | HTMLSelectElement | HTMLOtherElement | NonHTMLElement

record ParsedHotkey =
  key :: string
  ctrl :: bool
  shift :: bool
  alt :: bool
  meta :: bool

record RawHotkey =
  rawKey :: string
  rawCtrl :: bool
  rawShift :: bool
  rawAlt :: bool
  rawMeta :: bool
  rawMod :: bool

datatype descriptor = Str string | Raw RawHotkey

record KeyboardEvent =
  evKey :: string
  ctrlKey :: bool
  shiftKey :: bool
  altKey :: bool
  metaKey :: bool
  evTarget :: "EventTarget option"
  currentTarget :: "EventTarget option"

datatype ParseError = EmptyHotkey | UnknownModifier string | MissingKey

text \<open>
  What the manager reads from outside its own file. \<open>hasDocument\<close> is
  \<^verbatim>\<open>typeof document !== 'undefined'\<close>; \<open>elementClass\<close>, \<open>contentEditable\<close> and \<open>ancestors\<close>
  describe the DOM tree (\<open>ancestors x\<close> lists the proper ancestors of element \<open>x\<close>);
  \<open>documentElement\<close> is the root element \<^verbatim>\<open>document.documentElement\<close>.
  \<open>parseHotkey\<close>, \<open>matchesKeyboardEvent\<close> and \<open>detectPlatform\<close> are the functions
  imported from \<^verbatim>\<open>./parse\<close>, \<^verbatim>\<open>./match\<close> and \<^verbatim>\<open>./constants\<close>: they are parameters, so
  every theorem about the manager holds for every parser and every matcher.
\<close>

record env =
  hasDocument :: bool
  documentElement :: nat
  elementClass :: "nat \<Rightarrow> elementClass"
  contentEditable :: "nat \<Rightarrow> string"
  ancestors :: "nat \<Rightarrow> nat list"
  detectPlatform :: platform
  parseHotkey :: "descriptor \<Rightarrow> platform \<Rightarrow> ParseError + ParsedHotkey"
  matchesKeyboardEvent :: "KeyboardEvent \<Rightarrow> ParsedHotkey \<Rightarrow> platform \<Rightarrow> bool"

definition isHTMLElement :: "env \<Rightarrow> nat \<Rightarrow> bool" where
  "isHTMLElement E x = (elementClass E x \<noteq> NonHTMLElement)"

text \<open>\<^verbatim>\<open>target.contains(node)\<close>: the node is the element itself or one of its descendants.\<close>

fun contains :: "env \<Rightarrow> nat \<Rightarrow> EventTarget \<Rightarrow> bool" where
  "contains E t (Element x) = (x = t \<or> t \<in> set (ancestors E x))"
| "contains E t other = False"

subsection \<open>\<^verbatim>\<open>String.prototype.toLowerCase\<close> on ASCII\<close>

definition lowerChar :: "char \<Rightarrow> char" where
  "lowerChar c =
    (if c = CHR ''A'' then CHR ''a'' else if c = CHR ''B'' then CHR ''b''
     else if c = CHR ''C'' then CHR ''c'' else if c = CHR ''D'' then CHR ''d''
     else if c = CHR ''E'' then CHR ''e'' else if c = CHR ''F'' then CHR ''f''
     else if c = CHR ''G'' then CHR ''g'' else if c = CHR ''H'' then CHR ''h''
     else if c = CHR ''I'' then CHR ''i'' else if c = CHR ''J'' then CHR ''j''
     else if c = CHR ''K'' then CHR ''k'' else if c = CHR ''L'' then CHR ''l''
     else if c = CHR ''M'' then CHR ''m'' else if c = CHR ''N'' then CHR ''n''
     else if c = CHR ''O'' then CHR ''o'' else if c = CHR ''P'' then CHR ''p''
     else if c = CHR ''Q'' then CHR ''q'' else if c = CHR ''R'' then CHR ''r''
     else if c = CHR ''S'' then CHR ''s'' else if c = CHR ''T'' then CHR ''t''
     else if c = CHR ''U'' then CHR ''u'' else if c = CHR ''V'' then CHR ''v''
     else if c = CHR ''W'' then CHR ''w'' else if c = CHR ''X'' then CHR ''x''
     else if c = CHR ''Y'' then CHR ''y'' else if c = CHR ''Z'' then CHR ''z''
     else c)"

definition toLowerCase :: "string \<Rightarrow> string" where
  "toLowerCase s = map lowerChar s"

subsection \<open>The pure predicates of the manager\<close>

text \<open>
  \<^verbatim>\<open>isEventForTarget\<close>: for the document and the window only the listener's attachment
  point counts; for an HTML element also an origin inside the element.
\<close>

definition isEventForTarget :: "env \<Rightarrow> KeyboardEvent \<Rightarrow> EventTarget \<Rightarrow> bool" where
  "isEventForTarget E event tg =
    (if tg = Document \<or> tg = Window then currentTarget event = Some tg
     else (case tg of
        Element t \<Rightarrow>
          (if isHTMLElement E t then
             (if currentTarget event = Some tg then True
              else (case evTarget event of
                      Some n \<Rightarrow> contains E t n
                    | None \<Rightarrow> False))
           else False)
      | other \<Rightarrow> False))"

text \<open>\<^verbatim>\<open>isInputElement\<close>: inputs of every type, text areas, selects, and HTML elements whose
  \<^verbatim>\<open>contentEditable\<close> property reads \<^verbatim>\<open>'true'\<close> or \<^verbatim>\<open>''\<close>.\<close>

definition isInputElement :: "env \<Rightarrow> EventTarget option \<Rightarrow> bool" where
  "isInputElement E element =
    (case element of
       None \<Rightarrow> False
     | Some (Element x) \<Rightarrow>
         (if elementClass E x = HTMLInputElement \<or> elementClass E x = HTMLTextAreaElement
             \<or> elementClass E x = HTMLSelectElement then True
          else if isHTMLElement E x
               \<and> (contentEditable E x = ''true'' \<or> contentEditable E x = '''') then True
          else False)
     | Some other \<Rightarrow> False)"

text \<open>\<^verbatim>\<open>shouldResetRegistration\<close>, on the parsed hotkey of the registration.\<close>

definition shouldResetRegistration :: "ParsedHotkey \<Rightarrow> KeyboardEvent \<Rightarrow> bool" where
  "shouldResetRegistration parsed event =
    (let releasedKey = toLowerCase (evKey event) in
     if releasedKey = toLowerCase (key parsed) then True
     else if ctrl parsed \<and> (releasedKey = ''control'' \<or> releasedKey = ''ctrl'') then True
     else if shift parsed \<and> releasedKey = ''shift'' then True
     else if alt parsed \<and> (releasedKey = ''alt'' \<or> releasedKey = ''option'') then True
     else if meta parsed \<and> (releasedKey = ''meta'' \<or> releasedKey = ''command'') then True
     else False)"

section \<open>The hotkey manager\<close>

subsection \<open>Registrations, options and callbacks\<close>

datatype conflictBehavior = Warn | Error | Replace | Allow

text \<open>
  The options object a caller passes to \<^verbatim>\<open>register\<close>: a field the caller left out is
  \<open>None\<close>. \<open>optConflictBehavior\<close> is the \<^verbatim>\<open>conflictBehavior\<close> field the tests and the
  changeset describe; \<^verbatim>\<open>register\<close> copies it into the stored options with the spread.
\<close>

record HotkeyOptionsIn =
  optPreventDefault :: "bool option"
  optStopPropagation :: "bool option"
  optEventType :: "eventKind option"
  optRequireReset :: "bool option"
  optEnabled :: "bool option"
  optIgnoreInputs :: "bool option"
  optPlatform :: "platform option"
  optTarget :: "EventTarget option"
  optConflictBehavior :: "conflictBehavior option"

definition noOptions :: HotkeyOptionsIn where
  "noOptions = \<lparr> optPreventDefault = None, optStopPropagation = None, optEventType = None,
     optRequireReset = None, optEnabled = None, optIgnoreInputs = None, optPlatform = None,
     optTarget = None, optConflictBehavior = None \<rparr>"

record HotkeyOptions =
  preventDefault :: bool
  stopPropagation :: bool
  eventType :: eventKind
  requireReset :: bool
  enabled :: bool
  ignoreInputs :: bool
  platform :: platform
  conflictBehavior :: "conflictBehavior option"

type_synonym regId = string

text \<open>
  A callback is code of the caller. It is modelled as a label (which function it is) and
  a script of the calls it makes back into the manager while it runs: registering
  further hotkeys (a parse error caught by the callback) and unregistering by id, the id
  being what the closure returned by \<^verbatim>\<open>register\<close> holds.
\<close>

datatype action = Register descriptor nat "action list" HotkeyOptionsIn | Unregister regId

type_synonym HotkeyCallback = "nat \<times> action list"

record HotkeyRegistration =
  regId :: regId
  hotkey :: descriptor
  parsedHotkey :: ParsedHotkey
  callback :: HotkeyCallback
  options :: HotkeyOptions
  hasFired :: bool
  target :: EventTarget

text \<open>What a dispatch does that is visible outside the manager.\<close>

datatype effect =
  ConsultMatcher regId | PreventDefault regId | StopPropagation regId | Invoke nat regId

subsection \<open>The state\<close>

text \<open>
  \<open>registrationIdCounter\<close> is the module-level counter; \<open>hasInstance\<close> says whether
  \<^verbatim>\<open>HotkeyManager.instance\<close> is set, and \<open>registrations\<close>, \<open>managerPlatform\<close>,
  \<open>targetListeners\<close> and \<open>targetRegistrations\<close> are the fields of that instance. A
  JavaScript \<^verbatim>\<open>Map\<close> is an association list in insertion order. \<open>targetRegistrations\<close>
  maps a target to the address of its \<^verbatim>\<open>Set\<close> object in \<open>setObjects\<close>; a \<^verbatim>\<open>Set\<close> is the list
  of its entries in insertion order, a deleted entry being left as \<open>None\<close>, which is how
  iteration over a set that changes is specified in ECMAScript. \<open>attached\<close> are the
  listeners the targets hold (\<^verbatim>\<open>addEventListener\<close>), \<open>trace\<close> the effects of dispatches so
  far, and \<open>assigned\<close> lists the ids given to registrations, in order.
\<close>

record world =
  registrationIdCounter :: nat
  hasInstance :: bool
  registrations :: "(regId \<times> HotkeyRegistration) list"
  managerPlatform :: platform
  targetListeners :: "EventTarget list"
  targetRegistrations :: "(EventTarget \<times> nat) list"
  setObjects :: "regId option list list"
  attached :: "(EventTarget \<times> eventKind) list"
  trace :: "effect list"
  assigned :: "regId list"

definition initialWorld :: world where
  "initialWorld = \<lparr> registrationIdCounter = 0, hasInstance = False, registrations = [],
     managerPlatform = Linux, targetListeners = [], targetRegistrations = [],
     setObjects = [], attached = [], trace = [], assigned = [] \<rparr>"

subsection \<open>\<^verbatim>\<open>generateId\<close>\<close>

definition digitChar :: "nat \<Rightarrow> char" where
  "digitChar d =
    (if d = 0 then CHR ''0'' else if d = 1 then CHR ''1'' else if d = 2 then CHR ''2''
     else if d = 3 then CHR ''3'' else if d = 4 then CHR ''4'' else if d = 5 then CHR ''5''
     else if d = 6 then CHR ''6'' else if d = 7 then CHR ''7'' else if d = 8 then CHR ''8''
     else CHR ''9'')"

fun decimal :: "nat \<Rightarrow> string" where
  "decimal n = (if n < 10 then [digitChar n] else decimal (n div 10) @ [digitChar (n mod 10)])"

declare decimal.simps [simp del]

text \<open>The template literal \<^verbatim>\<open>`hotkey_${n}`\<close>.\<close>

definition hotkeyId :: "nat \<Rightarrow> regId" where
  "hotkeyId n = ''hotkey_'' @ decimal n"



subsection \<open>\<^verbatim>\<open>Set\<close> objects\<close>

definition setAt :: "world \<Rightarrow> nat \<Rightarrow> regId option list" where
  "setAt w a = (if a < length (setObjects w) then setObjects w ! a else [])"

definition setAdd :: "regId \<Rightarrow> regId option list \<Rightarrow> regId option list" where
  "setAdd i es = (if Some i \<in> set es then es else es @ [Some i])"

definition setDelete :: "regId \<Rightarrow> regId option list \<Rightarrow> regId option list" where
  "setDelete i es = map (\<lambda>e. if e = Some i then None else e) es"

definition setSize :: "regId option list \<Rightarrow> nat" where
  "setSize es = length (filter (\<lambda>e. e \<noteq> None) es)"

subsection \<open>Listeners\<close>

definition ensureListenersForTarget :: "env \<Rightarrow> EventTarget \<Rightarrow> world \<Rightarrow> world" where
  "ensureListenersForTarget E tg w =
    (if \<not> hasDocument E then w
     else if tg \<in> set (targetListeners w) then w
     else w\<lparr> attached := attached w @ [(tg, Keydown), (tg, Keyup)],
             targetListeners := targetListeners w @ [tg] \<rparr>)"

definition removeListenersForTarget :: "env \<Rightarrow> EventTarget \<Rightarrow> world \<Rightarrow> world" where
  "removeListenersForTarget E tg w =
    (if \<not> hasDocument E then w
     else if tg \<notin> set (targetListeners w) then w
     else w\<lparr> attached := remove1 (tg, Keyup) (remove1 (tg, Keydown) (attached w)),
             targetListeners := removeAll tg (targetListeners w),
             targetRegistrations := AList.delete tg (targetRegistrations w) \<rparr>)"

subsection \<open>\<^verbatim>\<open>register\<close> and \<^verbatim>\<open>unregister\<close>\<close>

text \<open>The options object \<^verbatim>\<open>register\<close> stores: the defaults, then the caller's fields spread
  over them, then the platform.\<close>

definition storedOptions :: "HotkeyOptionsIn \<Rightarrow> platform \<Rightarrow> HotkeyOptions" where
  "storedOptions opts pf =
    \<lparr> preventDefault = (case optPreventDefault opts of Some b \<Rightarrow> b | None \<Rightarrow> False),
      stopPropagation = (case optStopPropagation opts of Some b \<Rightarrow> b | None \<Rightarrow> False),
      eventType = (case optEventType opts of Some k \<Rightarrow> k | None \<Rightarrow> Keydown),
      requireReset = (case optRequireReset opts of Some b \<Rightarrow> b | None \<Rightarrow> False),
      enabled = (case optEnabled opts of Some b \<Rightarrow> b | None \<Rightarrow> True),
      ignoreInputs = (case optIgnoreInputs opts of Some b \<Rightarrow> b | None \<Rightarrow> True),
      platform = pf,
      conflictBehavior = optConflictBehavior opts \<rparr>"

text \<open>Tracking the registration for its target: a new \<^verbatim>\<open>Set\<close> for a target that has none,
  then \<^verbatim>\<open>add(id)\<close>.\<close>

definition trackRegistration :: "EventTarget \<Rightarrow> regId \<Rightarrow> world \<Rightarrow> world" where
  "trackRegistration tg i w =
    (let w1 = (case map_of (targetRegistrations w) tg of
                 Some a \<Rightarrow> w
               | None \<Rightarrow> w\<lparr> targetRegistrations :=
                               targetRegistrations w @ [(tg, length (setObjects w))],
                             setObjects := setObjects w @ [[]] \<rparr>)
     in case map_of (targetRegistrations w1) tg of
          Some a \<Rightarrow> w1\<lparr> setObjects := (setObjects w1)[a := setAdd i (setAt w1 a)] \<rparr>
        | None \<Rightarrow> w1)"

text \<open>\<^verbatim>\<open>options.platform ?? this.platform\<close>, and the target: the caller's, else the document,
  else a placeholder object made for this call.\<close>

definition resolvedPlatform :: "HotkeyOptionsIn \<Rightarrow> world \<Rightarrow> platform" where
  "resolvedPlatform opts w =
    (case optPlatform opts of Some p \<Rightarrow> p | None \<Rightarrow> managerPlatform w)"

definition resolvedTarget :: "env \<Rightarrow> HotkeyOptionsIn \<Rightarrow> nat \<Rightarrow> EventTarget" where
  "resolvedTarget E opts n =
    (case optTarget opts of
       Some t \<Rightarrow> t
     | None \<Rightarrow> if hasDocument E then Document else Stub n)"

definition newRegistration ::
  "regId \<Rightarrow> descriptor \<Rightarrow> ParsedHotkey \<Rightarrow> HotkeyCallback \<Rightarrow> HotkeyOptionsIn \<Rightarrow> platform
    \<Rightarrow> EventTarget \<Rightarrow> HotkeyRegistration"
where
  "newRegistration i hk parsed cb opts pf tg =
    \<lparr> regId = i, hotkey = hk, parsedHotkey = parsed, callback = cb,
      options = storedOptions opts pf, hasFired = False, target = tg \<rparr>"

text \<open>
  \<^verbatim>\<open>register\<close> returns the world it leaves and either the parse error it throws or the id
  its returned closure unregisters. The counter has moved on in both cases. The step of
  the counter is written \<open>+ 1\<close> here, which is the step of \<^verbatim>\<open>generateId\<close> for as long as the
  counter is below \<open>2^53\<close>, that is for the first \<open>2^53\<close> ids of a process.
\<close>

definition register ::
  "env \<Rightarrow> descriptor \<Rightarrow> HotkeyCallback \<Rightarrow> HotkeyOptionsIn \<Rightarrow> world \<Rightarrow> world \<times> (ParseError + regId)"
where
  "register E hk cb opts w =
    (let w1 = w\<lparr> registrationIdCounter := registrationIdCounter w + 1 \<rparr>;
         i = hotkeyId (registrationIdCounter w1);
         pf = resolvedPlatform opts w1
     in case parseHotkey E hk pf of
          Inl err \<Rightarrow> (w1, Inl err)
        | Inr parsed \<Rightarrow>
            (let tg = resolvedTarget E opts (registrationIdCounter w1);
                 registration = newRegistration i hk parsed cb opts pf tg;
                 w2 = w1\<lparr> registrations := AList.update i registration (registrations w1),
                          assigned := assigned w1 @ [i] \<rparr>
             in (ensureListenersForTarget E tg (trackRegistration tg i w2), Inr i)))"

definition unregister :: "env \<Rightarrow> regId \<Rightarrow> world \<Rightarrow> world" where
  "unregister E i w =
    (case map_of (registrations w) i of
       None \<Rightarrow> w
     | Some registration \<Rightarrow>
         (let tg = target registration;
              w1 = w\<lparr> registrations := AList.delete i (registrations w) \<rparr>
          in case map_of (targetRegistrations w1) tg of
               None \<Rightarrow> w1
             | Some a \<Rightarrow>
                 (let w2 = w1\<lparr> setObjects := (setObjects w1)[a := setDelete i (setAt w1 a)] \<rparr>
                  in if setSize (setAt w2 a) = 0 then removeListenersForTarget E tg w2
                     else w2)))"

text \<open>\<^verbatim>\<open>getRegistrationCount\<close>.\<close>

definition getRegistrationCount :: "world \<Rightarrow> nat" where
  "getRegistrationCount w = length (registrations w)"

subsection \<open>The singleton\<close>

text \<open>\<^verbatim>\<open>destroy\<close> walks the keys of \<^verbatim>\<open>targetListeners\<close>; removing a target's listeners deletes
  that key only, so the walk meets every key once.\<close>

definition destroy :: "env \<Rightarrow> world \<Rightarrow> world" where
  "destroy E w =
    (fold (removeListenersForTarget E) (targetListeners w) w)
      \<lparr> registrations := [], targetListeners := [], targetRegistrations := [] \<rparr>"

definition getInstance :: "env \<Rightarrow> world \<Rightarrow> world" where
  "getInstance E w =
    (if hasInstance w then w
     else w\<lparr> hasInstance := True, registrations := [], managerPlatform := detectPlatform E,
             targetListeners := [], targetRegistrations := [] \<rparr>)"

definition resetInstance :: "env \<Rightarrow> world \<Rightarrow> world" where
  "resetInstance E w = (if hasInstance w then (destroy E w)\<lparr> hasInstance := False \<rparr> else w)"

subsection \<open>Dispatch\<close>

text \<open>Running a callback's script: the calls it makes back into the manager, in order.\<close>

fun runAction :: "env \<Rightarrow> action \<Rightarrow> world \<Rightarrow> world" where
  "runAction E (Register hk l s opts) w = fst (register E hk (l, s) opts w)"
| "runAction E (Unregister i) w = unregister E i w"

definition runScript :: "env \<Rightarrow> action list \<Rightarrow> world \<Rightarrow> world" where
  "runScript E acts w = fold (runAction E) acts w"

definition executeHotkeyCallback :: "env \<Rightarrow> HotkeyRegistration \<Rightarrow> world \<Rightarrow> world" where
  "executeHotkeyCallback E registration w =
    (let w1 = (if preventDefault (options registration)
               then w\<lparr> trace := trace w @ [PreventDefault (regId registration)] \<rparr> else w);
         w2 = (if stopPropagation (options registration)
               then w1\<lparr> trace := trace w1 @ [StopPropagation (regId registration)] \<rparr> else w1);
         w3 = w2\<lparr> trace := trace w2 @ [Invoke (fst (callback registration)) (regId registration)] \<rparr>
     in runScript E (snd (callback registration)) w3)"

text \<open>
  \<open>registration.hasFired = b\<close> writes to the registration object. The object is the
  entry of \<open>registrations\<close> under its id, or, once unregistered, an object nothing refers
  to any more.
\<close>

definition setHasFired :: "regId \<Rightarrow> bool \<Rightarrow> world \<Rightarrow> world" where
  "setHasFired i b w =
    w\<lparr> registrations := AList.map_entry i (\<lambda>r. r\<lparr> hasFired := b \<rparr>) (registrations w) \<rparr>"

definition consultMatcher :: "regId \<Rightarrow> world \<Rightarrow> world" where
  "consultMatcher i w = w\<lparr> trace := trace w @ [ConsultMatcher i] \<rparr>"

text \<open>The body of the loop of \<^verbatim>\<open>processTargetEvent\<close>, for the id the loop is at.\<close>

definition processRegistration ::
  "env \<Rightarrow> KeyboardEvent \<Rightarrow> EventTarget \<Rightarrow> eventKind \<Rightarrow> regId \<Rightarrow> world \<Rightarrow> world"
where
  "processRegistration E event tg kind i w =
    (case map_of (registrations w) i of
       None \<Rightarrow> w
     | Some registration \<Rightarrow>
         if \<not> isEventForTarget E event tg then w
         else if \<not> enabled (options registration) then w
         else if ignoreInputs (options registration) \<and> isInputElement E (evTarget event)
                 \<and> evTarget event \<noteq> Some (target registration) then w
         else if kind = Keydown then
           (if eventType (options registration) \<noteq> Keydown then w
            else if requireReset (options registration) \<and> hasFired registration then w
            else if matchesKeyboardEvent E event (parsedHotkey registration)
                      (platform (options registration))
            then (let w1 = executeHotkeyCallback E registration
                             (consultMatcher (regId registration) w)
                  in if requireReset (options registration) then setHasFired i True w1 else w1)
            else consultMatcher (regId registration) w)
         else
           (let w1 = (if eventType (options registration) = Keyup then
                        (if matchesKeyboardEvent E event (parsedHotkey registration)
                              (platform (options registration))
                         then executeHotkeyCallback E registration
                                (consultMatcher (regId registration) w)
                         else consultMatcher (regId registration) w)
                      else w)
            in if requireReset (options registration) \<and> hasFired registration then
                 (if shouldResetRegistration (parsedHotkey registration) event
                  then setHasFired i False w1 else w1)
               else w1))"

text \<open>
  The loop \<^verbatim>\<open>for (const id of targetRegs)\<close> over the \<^verbatim>\<open>Set\<close> object at address \<open>a\<close>, from
  position \<open>pos\<close>. A callback may add to the set for ever, so the loop takes fuel. It
  returns whether it came to the end of the set, the ids it visited, and the world.
\<close>

fun forOf ::
  "nat \<Rightarrow> env \<Rightarrow> KeyboardEvent \<Rightarrow> EventTarget \<Rightarrow> eventKind \<Rightarrow> nat \<Rightarrow> nat \<Rightarrow> world
    \<Rightarrow> bool \<times> regId list \<times> world"
where
  "forOf 0 E event tg kind a pos w = (length (setAt w a) \<le> pos, [], w)"
| "forOf (Suc fuel) E event tg kind a pos w =
    (if length (setAt w a) \<le> pos then (True, [], w)
     else (case setAt w a ! pos of
             None \<Rightarrow> forOf fuel E event tg kind a (Suc pos) w
           | Some i \<Rightarrow>
               (case forOf fuel E event tg kind a (Suc pos)
                       (processRegistration E event tg kind i w) of
                  (finished, visited, w') \<Rightarrow> (finished, i # visited, w'))))"

definition processTargetEvent ::
  "nat \<Rightarrow> env \<Rightarrow> KeyboardEvent \<Rightarrow> EventTarget \<Rightarrow> eventKind \<Rightarrow> world \<Rightarrow> bool \<times> regId list \<times> world"
where
  "processTargetEvent fuel E event tg kind w =
    (case map_of (targetRegistrations w) tg of
       None \<Rightarrow> (True, [], w)
     | Some a \<Rightarrow> forOf fuel E event tg kind a 0 w)"

text \<open>The browser delivers an event to the listener a target holds, if it holds one.\<close>

definition dispatchEvent ::
  "nat \<Rightarrow> env \<Rightarrow> EventTarget \<Rightarrow> eventKind \<Rightarrow> KeyboardEvent \<Rightarrow> world \<Rightarrow> bool \<times> regId list \<times> world"
where
  "dispatchEvent fuel E tg kind event w =
    (if (tg, kind) \<in> set (attached w) then processTargetEvent fuel E event tg kind w
     else (True, [], w))"

subsection \<open>Runs of the program\<close>

text \<open>
  What the rest of the program does with the manager, one call at a time: it asks for
  the singleton, resets it, registers through \<^verbatim>\<open>getHotkeyManager().register\<close>, calls the
  closure a registration returned, or the browser delivers a key event to a target.
\<close>

datatype call =
  GetInstance
| ResetInstance
| CallRegister descriptor HotkeyCallback HotkeyOptionsIn
| CallUnregister regId
| Dispatch nat EventTarget eventKind KeyboardEvent

fun perform :: "env \<Rightarrow> call \<Rightarrow> world \<Rightarrow> world" where
  "perform E GetInstance w = getInstance E w"
| "perform E ResetInstance w = resetInstance E w"
| "perform E (CallRegister hk cb opts) w = fst (register E hk cb opts (getInstance E w))"
| "perform E (CallUnregister i) w = unregister E i w"
| "perform E (Dispatch fuel tg kind event) w = snd (snd (dispatchEvent fuel E tg kind event w))"

definition run :: "env \<Rightarrow> call list \<Rightarrow> world \<Rightarrow> world" where
  "run E calls w = fold (perform E) calls w"

subsection \<open>What the claims speak of\<close>

text \<open>The registration set of a scope: the ids in the \<^verbatim>\<open>Set\<close> that \<^verbatim>\<open>targetRegistrations\<close>
  holds for it, in insertion order; empty for a scope it has no entry for.\<close>

definition liveIds :: "regId option list \<Rightarrow> regId list" where
  "liveIds es = List.map_filter (\<lambda>e. e) es"

definition registrationSet :: "world \<Rightarrow> EventTarget \<Rightarrow> regId list" where
  "registrationSet w tg =
    (case map_of (targetRegistrations w) tg of
       None \<Rightarrow> []
     | Some a \<Rightarrow> liveIds (setAt w a))"

text \<open>The ids of the registrations bound to a scope, read from the registrations.\<close>

definition boundTo :: "world \<Rightarrow> EventTarget \<Rightarrow> regId list" where
  "boundTo w tg = map fst (filter (\<lambda>(i, r). target r = tg) (registrations w))"

text \<open>A scope holds a listener pair when one press listener and one release listener
  are attached to it, and holds none when neither kind is attached.\<close>

definition hasListenerPair :: "world \<Rightarrow> EventTarget \<Rightarrow> bool" where
  "hasListenerPair w tg =
    (count_list (attached w) (tg, Keydown) = 1 \<and> count_list (attached w) (tg, Keyup) = 1)"

definition hasNoListener :: "world \<Rightarrow> EventTarget \<Rightarrow> bool" where
  "hasNoListener w tg =
    (count_list (attached w) (tg, Keydown) = 0 \<and> count_list (attached w) (tg, Keyup) = 0)"

text \<open>
  The released key of the specification: it is the primary key of the hotkey up to case,
  or it names a modifier that the hotkey requires. A released modifier key is named as
  \<^verbatim>\<open>shouldResetRegistration\<close> names it.
\<close>

datatype modifier = Control | Shift | Alt | Meta

fun requiresModifier :: "ParsedHotkey \<Rightarrow> modifier \<Rightarrow> bool" where
  "requiresModifier parsed Control = ctrl parsed"
| "requiresModifier parsed Shift = shift parsed"
| "requiresModifier parsed Alt = alt parsed"
| "requiresModifier parsed Meta = meta parsed"

definition modifierKeyName :: "string \<Rightarrow> modifier option" where
  "modifierKeyName k =
    (if k = ''control'' \<or> k = ''ctrl'' then Some Control
     else if k = ''shift'' then Some Shift
     else if k = ''alt'' \<or> k = ''option'' then Some Alt
     else if k = ''meta'' \<or> k = ''command'' then Some Meta
     else None)"

definition releasesKeyOf :: "ParsedHotkey \<Rightarrow> string \<Rightarrow> bool" where
  "releasesKeyOf parsed released =
    (toLowerCase released = toLowerCase (key parsed)
     \<or> (case modifierKeyName (toLowerCase released) of
           Some m \<Rightarrow> requiresModifier parsed m
         | None \<Rightarrow> False))"

text \<open>The gates of the dispatch loop that come before the press and release branches:
  the event satisfies the scope, the registration is enabled, and the origin is not an
  input the registration ignores.\<close>

definition reaches :: "env \<Rightarrow> KeyboardEvent \<Rightarrow> EventTarget \<Rightarrow> HotkeyRegistration \<Rightarrow> bool" where
  "reaches E event tg r =
    (isEventForTarget E event tg \<and> enabled (options r)
     \<and> \<not> (ignoreInputs (options r) \<and> isInputElement E (evTarget event)
            \<and> evTarget event \<noteq> Some (target r)))"

text \<open>The effects a matching event has for a registration: the matcher is asked, the
  suppression the options ask for is applied, then the callback runs.\<close>

definition firing :: "HotkeyRegistration \<Rightarrow> effect list" where
  "firing r =
    [ConsultMatcher (regId r)]
    @ (if preventDefault (options r) then [PreventDefault (regId r)] else [])
    @ (if stopPropagation (options r) then [StopPropagation (regId r)] else [])
    @ [Invoke (fst (callback r)) (regId r)]"


text \<open>
  The states of the process that come after a state: whatever the rest of the program
  does next with the manager (a call of \<open>perform\<close>, or \<^verbatim>\<open>destroy\<close>), and every step inside a
  dispatch (a callback registers or unregisters, the loop writes a latch or an effect).
\<close>

inductive later :: "env \<Rightarrow> world \<Rightarrow> world \<Rightarrow> bool" for E :: env and w :: world where
  now: "later E w w"
| call: "later E w w' \<Longrightarrow> later E w (perform E c w')"
| callback: "later E w w' \<Longrightarrow> later E w (runAction E a w')"
| teardown: "later E w w' \<Longrightarrow> later E w (destroy E w')"
| latch: "later E w w' \<Longrightarrow> later E w (setHasFired i b w')"
| effect: "later E w w' \<Longrightarrow> later E w (w'\<lparr> trace := t \<rparr>)"

text \<open>How a \<^verbatim>\<open>Set\<close> object changes: entries are added at the end, and an entry that is
  there stays as it is or is deleted.\<close>

definition grownFrom :: "regId option list \<Rightarrow> regId option list \<Rightarrow> bool" where
  "grownFrom old new \<longleftrightarrow>
    length old \<le> length new \<and> (\<forall>p < length old. new ! p = old ! p \<or> new ! p = None)"

subsection \<open>Invariants\<close>

text \<open>Every id in use was made from a counter value already passed, and the entry of
  \<open>registrations\<close> under an id is the registration with that id.\<close>

definition idsBounded :: "world \<Rightarrow> bool" where
  "idsBounded w =
    (\<forall>p \<in> set (registrations w).
       regId (snd p) = fst p \<and> (\<exists>k. k \<le> registrationIdCounter w \<and> fst p = hotkeyId k))"

definition assignedInOrder :: "world \<Rightarrow> bool" where
  "assignedInOrder w =
    (\<exists>ks. assigned w = map hotkeyId ks \<and> sorted_wrt (<) ks
        \<and> (\<forall>k \<in> set ks. k \<le> registrationIdCounter w))"

text \<open>Every id of a registration is among the ids given out.\<close>

definition idsRecorded :: "world \<Rightarrow> bool" where
  "idsRecorded w = (assignedInOrder w \<and> set (map fst (registrations w)) \<subseteq> set (assigned w))"

text \<open>The scope partition: one \<^verbatim>\<open>Set\<close> object per tracked target, at an address of its own.\<close>

definition heapOk :: "world \<Rightarrow> bool" where
  "heapOk w =
    (distinct (map fst (targetRegistrations w)) \<and> distinct (map snd (targetRegistrations w))
     \<and> list_all (\<lambda>p. snd p < length (setObjects w)) (targetRegistrations w))"

text \<open>No tracked set is empty, listeners are recorded for the tracked targets and for no
  others, and the listeners the targets hold are those pairs.\<close>

definition listenerPairs :: "EventTarget list \<Rightarrow> (EventTarget \<times> eventKind) list" where
  "listenerPairs ts = concat (map (\<lambda>t. [(t, Keydown), (t, Keyup)]) ts)"

definition listenersOk :: "world \<Rightarrow> bool" where
  "listenersOk w =
    (list_all (\<lambda>p. liveIds (setObjects w ! snd p) \<noteq> []) (targetRegistrations w)
     \<and> distinct (targetListeners w)
     \<and> set (targetListeners w) = fst ` set (targetRegistrations w)
     \<and> attached w = listenerPairs (targetListeners w))"

text \<open>Without an instance there is nothing registered and nothing tracked.\<close>

definition instanceOk :: "world \<Rightarrow> bool" where
  "instanceOk w =
    (hasInstance w
     \<or> (registrations w = [] \<and> targetRegistrations w = [] \<and> targetListeners w = []))"

definition partitionOk :: "world \<Rightarrow> bool" where
  "partitionOk w = (heapOk w \<and> listenersOk w \<and> instanceOk w)"

text \<open>The sets track the registrations: a registration is in the set of its target, and
  a set holds only ids of registrations of its target, each once.\<close>

definition tracked :: "world \<Rightarrow> bool" where
  "tracked w =
    (distinct (map fst (registrations w))
     \<and> list_all (\<lambda>p. fst p \<in> set (registrationSet w (target (snd p)))) (registrations w)
     \<and> list_all (\<lambda>q. distinct (liveIds (setAt w (snd q)))
           \<and> list_all (\<lambda>i. map_option target (map_of (registrations w) i) = Some (fst q))
                (liveIds (setAt w (snd q))))
         (targetRegistrations w))"


section \<open>The parser and the matcher\<close>

text \<open>
  Modelled from the spec: \<^verbatim>\<open>parseHotkey\<close> (the module \<^verbatim>\<open>./parse\<close>) and
  \<^verbatim>\<open>matchesKeyboardEvent\<close> (the module \<^verbatim>\<open>./match\<close>) are not among the sources; only their
  callers and tests are. The definitions of this section follow sections 3, 4.1 and 4.4
  of the specification. The manager above does not use them: it takes its parser and
  its matcher as parameters.
\<close>

text \<open>Modelled from the spec: case folding to upper case, for the one-letter keys that the
  tests show in upper case (\<^verbatim>\<open>'Mod+S'\<close> parses to the key \<^verbatim>\<open>'S'\<close>).\<close>

definition upperChar :: "char \<Rightarrow> char" where
  "upperChar c =
    (if c = CHR ''a'' then CHR ''A'' else if c = CHR ''b'' then CHR ''B''
     else if c = CHR ''c'' then CHR ''C'' else if c = CHR ''d'' then CHR ''D''
     else if c = CHR ''e'' then CHR ''E'' else if c = CHR ''f'' then CHR ''F''
     else if c = CHR ''g'' then CHR ''G'' else if c = CHR ''h'' then CHR ''H''
     else if c = CHR ''i'' then CHR ''I'' else if c = CHR ''j'' then CHR ''J''
     else if c = CHR ''k'' then CHR ''K'' else if c = CHR ''l'' then CHR ''L''
     else if c = CHR ''m'' then CHR ''M'' else if c = CHR ''n'' then CHR ''N''
     else if c = CHR ''o'' then CHR ''O'' else if c = CHR ''p'' then CHR ''P''
     else if c = CHR ''q'' then CHR ''Q'' else if c = CHR ''r'' then CHR ''R''
     else if c = CHR ''s'' then CHR ''S'' else if c = CHR ''t'' then CHR ''T''
     else if c = CHR ''u'' then CHR ''U'' else if c = CHR ''v'' then CHR ''V''
     else if c = CHR ''w'' then CHR ''W'' else if c = CHR ''x'' then CHR ''X''
     else if c = CHR ''y'' then CHR ''Y'' else if c = CHR ''z'' then CHR ''Z''
     else c)"

definition toUpperCase :: "string \<Rightarrow> string" where
  "toUpperCase s = map upperChar s"

text \<open>Modelled from the spec: a descriptor that is empty or whitespace-only.\<close>

definition isWhitespace :: "char \<Rightarrow> bool" where
  "isWhitespace c = (c = CHR '' '' \<or> c = CHR 0x09 \<or> c = CHR 0x0A \<or> c = CHR 0x0D)"

definition blank :: "string \<Rightarrow> bool" where
  "blank s = list_all isWhitespace s"

text \<open>Modelled from the spec: splitting a string descriptor on the delimiter.\<close>

fun splitOn :: "char \<Rightarrow> string \<Rightarrow> string list" where
  "splitOn c [] = [[]]"
| "splitOn c (x # xs) =
    (if x = c then [] # splitOn c xs
     else (case splitOn c xs of
             t # ts \<Rightarrow> (x # t) # ts
           | [] \<Rightarrow> [[x]]))"

text \<open>Modelled from the spec: the modifier a token names, case-insensitively, with the
  aliases Option for Alt and Cmd, Command, Windows for Meta; Mod is Meta on the Mac and
  Control elsewhere.\<close>

definition modifierOfToken :: "platform \<Rightarrow> string \<Rightarrow> modifier option" where
  "modifierOfToken p tok =
    (let t = toLowerCase tok in
     if t = ''control'' then Some Control
     else if t = ''shift'' then Some Shift
     else if t = ''alt'' \<or> t = ''option'' then Some Alt
     else if t = ''meta'' \<or> t = ''cmd'' \<or> t = ''command'' \<or> t = ''windows'' then Some Meta
     else if t = ''mod'' then Some (if p = Mac then Meta else Control)
     else None)"

text \<open>Modelled from the spec: the canonical key name, folded by alias (Esc, Del, Return)
  and by case.\<close>

definition normalizeKeyName :: "string \<Rightarrow> string" where
  "normalizeKeyName k =
    (let t = toLowerCase k in
     if t = ''esc'' \<or> t = ''escape'' then ''Escape''
     else if t = ''del'' \<or> t = ''delete'' then ''Delete''
     else if t = ''return'' \<or> t = ''enter'' then ''Enter''
     else if length k = 1 then toUpperCase k
     else k)"

text \<open>Modelled from the spec: parsing a string descriptor. The last token that names no
  modifier is the primary key; any other such token is an unrecognized modifier; a
  descriptor with no key, or with an empty one, has no primary key segment.\<close>

definition parseString :: "string \<Rightarrow> platform \<Rightarrow> ParseError + ParsedHotkey" where
  "parseString s p =
    (if blank s then Inl EmptyHotkey
     else
       (let tokens = splitOn (CHR ''+'') s;
            mods = List.map_filter (modifierOfToken p) tokens
        in case rev (filter (\<lambda>t. modifierOfToken p t = None) tokens) of
             [] \<Rightarrow> Inl MissingKey
           | k # unrecognized \<Rightarrow>
               (case rev unrecognized of
                  u # us \<Rightarrow> Inl (UnknownModifier u)
                | [] \<Rightarrow>
                    if blank k then Inl MissingKey
                    else Inr \<lparr> key = normalizeKeyName k, ctrl = (Control \<in> set mods),
                               shift = (Shift \<in> set mods), alt = (Alt \<in> set mods),
                               meta = (Meta \<in> set mods) \<rparr>)))"

text \<open>Modelled from the spec: parsing a structured descriptor. The boolean fields are the
  flags, and \<^verbatim>\<open>mod\<close> resolves as the Mod modifier does.\<close>

definition parseRaw :: "RawHotkey \<Rightarrow> platform \<Rightarrow> ParseError + ParsedHotkey" where
  "parseRaw r p =
    (if blank (rawKey r) then Inl EmptyHotkey
     else Inr \<lparr> key = normalizeKeyName (rawKey r),
                ctrl = (rawCtrl r \<or> (rawMod r \<and> p \<noteq> Mac)),
                shift = rawShift r, alt = rawAlt r,
                meta = (rawMeta r \<or> (rawMod r \<and> p = Mac)) \<rparr>)"

text \<open>Modelled from the spec: \<^verbatim>\<open>parse(descriptor, platform)\<close> over the two shapes.\<close>

fun parse :: "descriptor \<Rightarrow> platform \<Rightarrow> ParseError + ParsedHotkey" where
  "parse (Str s) p = parseString s p"
| "parse (Raw r) p = parseRaw r p"

text \<open>Modelled from the spec: the matcher of section 4.4. The event matches when its key,
  folded as the parser folds a key, is the parsed key up to case, and each of the four
  modifier flags of the event equals the flag of the parsed hotkey.\<close>

definition matches :: "KeyboardEvent \<Rightarrow> ParsedHotkey \<Rightarrow> platform \<Rightarrow> bool" where
  "matches event parsed p =
    (toLowerCase (normalizeKeyName (evKey event)) = toLowerCase (key parsed)
     \<and> ctrlKey event = ctrl parsed \<and> shiftKey event = shift parsed
     \<and> altKey event = alt parsed \<and> metaKey event = meta parsed)"

subsection \<open>\<^verbatim>\<open>formatParsedHotkey\<close>\<close>

text \<open>This one is in the sources, beside \<^verbatim>\<open>useHotkey\<close>. \<open>joinPlus\<close> is
  \<^verbatim>\<open>parts.join('+')\<close>.\<close>

fun joinPlus :: "string list \<Rightarrow> string" where
  "joinPlus [] = []"
| "joinPlus [p] = p"
| "joinPlus (p # q # ps) = p @ ''+'' @ joinPlus (q # ps)"

definition formatParsedHotkey :: "ParsedHotkey \<Rightarrow> string" where
  "formatParsedHotkey parsed =
    joinPlus ((if ctrl parsed then [''Control''] else []) @ (if alt parsed then [''Alt''] else [])
      @ (if shift parsed then [''Shift''] else []) @ (if meta parsed then [''Meta''] else [])
      @ [key parsed])"

fun isString :: "descriptor \<Rightarrow> bool" where
  "isString (Str s) = True"
| "isString (Raw r) = False"

section \<open>The sequence engine\<close>

text \<open>
  Modelled from the spec: the sequence engine (the module \<^verbatim>\<open>./sequence\<close>) is not among
  the sources; only its tests are. The definitions of this section follow section 4.5
  of the specification, one registration at a time: the state is the progress index and
  the pending timeout (the milliseconds left on it, \<open>None\<close> when no timeout is pending).
\<close>

datatype SequenceError = EmptySequence

record SequenceRegistration =
  orderedKeys :: "string list"
  sequenceCallback :: nat
  timeoutMillis :: "nat option"
  progressIndex :: nat
  pendingTimeout :: "nat option"

text \<open>Modelled from the spec: registering a sequence fails when it has no key.\<close>

definition registerSequence ::
  "string list \<Rightarrow> nat \<Rightarrow> nat option \<Rightarrow> SequenceError + SequenceRegistration"
where
  "registerSequence keys cb timeout =
    (if keys = [] then Inl EmptySequence
     else Inr \<lparr> orderedKeys = keys, sequenceCallback = cb, timeoutMillis = timeout,
                progressIndex = 0, pendingTimeout = None \<rparr>)"

text \<open>Modelled from the spec: the pressed key, canonicalized as the parser and the matcher
  do, against a key of the sequence.\<close>

definition sameKey :: "string \<Rightarrow> string \<Rightarrow> bool" where
  "sameKey pressed name =
    (toLowerCase (normalizeKeyName pressed) = toLowerCase (normalizeKeyName name))"

text \<open>Modelled from the spec: a press event. The result says whether the callback is
  invoked, and gives the registration after the event. A timeout is started, or started
  again, for \<open>timeoutMillis\<close> when one is configured.\<close>

definition pressKey :: "string \<Rightarrow> SequenceRegistration \<Rightarrow> bool \<times> SequenceRegistration" where
  "pressKey k s =
    (if progressIndex s < length (orderedKeys s) \<and> sameKey k (orderedKeys s ! progressIndex s)
     then
       (if Suc (progressIndex s) = length (orderedKeys s)
        then (True, s\<lparr> progressIndex := 0, pendingTimeout := None \<rparr>)
        else (False, s\<lparr> progressIndex := Suc (progressIndex s),
                        pendingTimeout := timeoutMillis s \<rparr>))
     else if orderedKeys s \<noteq> [] \<and> sameKey k (orderedKeys s ! 0)
     then (False, s\<lparr> progressIndex := 1, pendingTimeout := timeoutMillis s \<rparr>)
     else (False, s\<lparr> progressIndex := 0, pendingTimeout := None \<rparr>))"

text \<open>Modelled from the spec: time passing. A pending timeout that elapses resets the
  progress, silently.\<close>

definition elapse :: "nat \<Rightarrow> SequenceRegistration \<Rightarrow> SequenceRegistration" where
  "elapse d s =
    (case pendingTimeout s of
       None \<Rightarrow> s
     | Some left \<Rightarrow>
         if left \<le> d then s\<lparr> progressIndex := 0, pendingTimeout := None \<rparr>
         else s\<lparr> pendingTimeout := Some (left - d) \<rparr>)"

text \<open>The sequence G, I with a timeout of 500 ms, after G, with 200 ms left.\<close>

definition goInner :: SequenceRegistration where
  "goInner = \<lparr> orderedKeys = [''G'', ''I''], sequenceCallback = 1, timeoutMillis = Some 500,
     progressIndex = 1, pendingTimeout = Some 200 \<rparr>"

section \<open>An example page\<close>

text \<open>
  A page with a root element \<open>0\<close>, a body \<open>1\<close>, a text input \<open>2\<close> and a division \<open>3\<close> in
  the body, on a Mac, with the parser and the matcher above; and the same program run
  where there is no \<^verbatim>\<open>document\<close>.
\<close>

definition page :: env where
  "page = \<lparr> hasDocument = True, documentElement = 0,
     elementClass = (\<lambda>x. if x = 2 then HTMLInputElement else HTMLOtherElement),
     contentEditable = (\<lambda>x. ''inherit''),
     ancestors = (\<lambda>x. if x = 0 then [] else if x = 1 then [0] else [1, 0]),
     detectPlatform = Mac, parseHotkey = parse, matchesKeyboardEvent = matches \<rparr>"


text \<open>The same page where the division \<open>3\<close> is \<^verbatim>\<open><div contenteditable="plaintext-only">\<close> and
  a further division \<open>4\<close> is \<^verbatim>\<open><div contenteditable="true">\<close>.\<close>

definition editor :: env where
  "editor = page\<lparr> contentEditable :=
     (\<lambda>x. if x = 3 then ''plaintext-only'' else if x = 4 then ''true'' else ''inherit'') \<rparr>"

text \<open>K registered on the document of that page.\<close>

definition editing :: world where
  "editing =
    fst (register editor (Str ''K'') (1, []) noOptions (getInstance editor initialWorld))"

definition keyEvent :: "string \<Rightarrow> bool \<Rightarrow> EventTarget \<Rightarrow> EventTarget \<Rightarrow> KeyboardEvent" where
  "keyEvent k m origin at =
    \<lparr> evKey = k, ctrlKey = False, shiftKey = False, altKey = False, metaKey = m,
      evTarget = Some origin, currentTarget = Some at \<rparr>"

text \<open>Mod+S registered on the document with \<^verbatim>\<open>requireReset\<close>, and the world after Meta+s
  has been pressed once: the registration is latched.\<close>

definition saveOnce :: world where
  "saveOnce =
    fst (register page (Str ''Mod+S'') (1, []) (noOptions\<lparr> optRequireReset := Some True \<rparr>)
          (getInstance page initialWorld))"

definition saveHeld :: world where
  "saveHeld =
    snd (snd (dispatchEvent 1 page Document Keydown (keyEvent ''s'' True Document Document)
                saveOnce))"

definition savedRegistration :: HotkeyRegistration where
  "savedRegistration =
    (newRegistration ''hotkey_1'' (Str ''Mod+S'')
       \<lparr> key = ''S'', ctrl = False, shift = False, alt = False, meta = True \<rparr> (1, [])
       (noOptions\<lparr> optRequireReset := Some True \<rparr>) Mac Document)\<lparr> hasFired := True \<rparr>"

text \<open>K registered on the text input itself, and K registered on the document.\<close>

definition inputScoped :: world where
  "inputScoped =
    fst (register page (Str ''K'') (1, []) (noOptions\<lparr> optTarget := Some (Element 2) \<rparr>)
          (getInstance page initialWorld))"

definition documentScoped :: world where
  "documentScoped =
    fst (register page (Str ''K'') (1, []) noOptions (getInstance page initialWorld))"

text \<open>Mod+S registered twice on the document, the second time with a conflict policy.\<close>

definition registeredTwice :: "conflictBehavior option \<Rightarrow> world \<times> (ParseError + regId)" where
  "registeredTwice policy =
    register page (Str ''Mod+S'') (2, []) (noOptions\<lparr> optConflictBehavior := policy \<rparr>)
      (fst (register page (Str ''Mod+S'') (1, []) noOptions (getInstance page initialWorld)))"



text \<open>Mod+S registered once, with a callback that unregisters its own registration and
  then registers Mod+S again.\<close>

definition selfReplacing :: world where
  "selfReplacing =
    fst (register page (Str ''Mod+S'')
           (1, [Unregister ''hotkey_1'', Register (Str ''Mod+S'') 2 [] noOptions]) noOptions
          (getInstance page initialWorld))"


section \<open>The ids that \<^verbatim>\<open>generateId\<close> makes\<close>

lemma digitChar_inj: "a < 10 \<Longrightarrow> b < 10 \<Longrightarrow> digitChar a = digitChar b \<Longrightarrow> a = b"
  unfolding digitChar_def by (auto split: if_splits) arith

lemma decimal_nonempty: "decimal n \<noteq> []"
  by (subst decimal.simps) simp

lemma decimal_inj: "decimal m = decimal n \<Longrightarrow> m = n"
proof (induction m arbitrary: n rule: less_induct)
  case (less m)
  show ?case
  proof (cases "m < 10")
    case True
    show ?thesis
    proof (cases "n < 10")
      case True
      with \<open>m < 10\<close> less.prems show ?thesis
        by (simp add: decimal.simps [of m] decimal.simps [of n] digitChar_inj)
    next
      case False
      with \<open>m < 10\<close> less.prems decimal_nonempty [of "n div 10"] show ?thesis
        by (simp add: decimal.simps [of m] decimal.simps [of n] Cons_eq_append_conv)
    qed
  next
    case False
    show ?thesis
    proof (cases "n < 10")
      case True
      with \<open>\<not> m < 10\<close> less.prems decimal_nonempty [of "m div 10"] show ?thesis
        by (simp add: decimal.simps [of m] decimal.simps [of n] append_eq_Cons_conv)
    next
      case nbig: False
      from False nbig less.prems
      have eq: "decimal (m div 10) = decimal (n div 10)"
        and dg: "digitChar (m mod 10) = digitChar (n mod 10)"
        by (simp_all add: decimal.simps [of m] decimal.simps [of n])
      from False have "m div 10 < m" by simp
      from less.IH [OF this eq] have "m div 10 = n div 10" .
      moreover from dg have "m mod 10 = n mod 10"
        by (intro digitChar_inj) simp_all
      ultimately show ?thesis
        by (metis div_mult_mod_eq)
    qed
  qed
qed

lemma hotkeyId_inj [simp]: "hotkeyId m = hotkeyId n \<longleftrightarrow> m = n"
  by (auto simp: hotkeyId_def dest: decimal_inj)


section \<open>How the operations leave the fields they do not write\<close>

lemma ensure_frame [simp]:
  "trace (ensureListenersForTarget E tg w) = trace w"
  "assigned (ensureListenersForTarget E tg w) = assigned w"
  "registrationIdCounter (ensureListenersForTarget E tg w) = registrationIdCounter w"
  "registrations (ensureListenersForTarget E tg w) = registrations w"
  "targetRegistrations (ensureListenersForTarget E tg w) = targetRegistrations w"
  "setObjects (ensureListenersForTarget E tg w) = setObjects w"
  "hasInstance (ensureListenersForTarget E tg w) = hasInstance w"
  by (simp_all add: ensureListenersForTarget_def)

lemma remove_frame [simp]:
  "trace (removeListenersForTarget E tg w) = trace w"
  "assigned (removeListenersForTarget E tg w) = assigned w"
  "registrationIdCounter (removeListenersForTarget E tg w) = registrationIdCounter w"
  "registrations (removeListenersForTarget E tg w) = registrations w"
  "setObjects (removeListenersForTarget E tg w) = setObjects w"
  "hasInstance (removeListenersForTarget E tg w) = hasInstance w"
  by (simp_all add: removeListenersForTarget_def)

lemma track_frame [simp]:
  "trace (trackRegistration tg i w) = trace w"
  "assigned (trackRegistration tg i w) = assigned w"
  "registrationIdCounter (trackRegistration tg i w) = registrationIdCounter w"
  "registrations (trackRegistration tg i w) = registrations w"
  "targetListeners (trackRegistration tg i w) = targetListeners w"
  "attached (trackRegistration tg i w) = attached w"
  "hasInstance (trackRegistration tg i w) = hasInstance w"
  by (simp_all add: trackRegistration_def Let_def split: option.splits)

lemma resolvedPlatform_counter [simp]:
  "resolvedPlatform opts (w\<lparr> registrationIdCounter := n \<rparr>) = resolvedPlatform opts w"
  by (simp add: resolvedPlatform_def split: option.splits)

text \<open>The two ways \<^verbatim>\<open>register\<close> ends.\<close>

lemma register_cases:
  obtains (Throws) err where
      "parseHotkey E hk (resolvedPlatform opts w) = Inl err"
      "register E hk cb opts w =
        (w\<lparr> registrationIdCounter := Suc (registrationIdCounter w) \<rparr>, Inl err)"
  | (Registers) parsed where
      "parseHotkey E hk (resolvedPlatform opts w) = Inr parsed"
      "register E hk cb opts w =
        (ensureListenersForTarget E (resolvedTarget E opts (Suc (registrationIdCounter w)))
          (trackRegistration (resolvedTarget E opts (Suc (registrationIdCounter w)))
            (hotkeyId (Suc (registrationIdCounter w)))
            (w\<lparr> registrationIdCounter := Suc (registrationIdCounter w),
               registrations :=
                 AList.update (hotkeyId (Suc (registrationIdCounter w)))
                   (newRegistration (hotkeyId (Suc (registrationIdCounter w))) hk parsed cb opts
                      (resolvedPlatform opts w)
                      (resolvedTarget E opts (Suc (registrationIdCounter w))))
                   (registrations w),
               assigned := assigned w @ [hotkeyId (Suc (registrationIdCounter w))] \<rparr>)),
         Inr (hotkeyId (Suc (registrationIdCounter w))))"
proof (cases "parseHotkey E hk (resolvedPlatform opts w)")
  case (Inl err)
  then show ?thesis
    by (intro Throws [of err]) (simp_all add: register_def Let_def)
next
  case (Inr parsed)
  then show ?thesis
    by (intro Registers [of parsed]) (simp_all add: register_def Let_def)
qed

lemma register_trace [simp]: "trace (fst (register E hk cb opts w)) = trace w"
  by (cases rule: register_cases [of E hk opts w cb]) simp_all

lemma register_hasInstance [simp]:
  "hasInstance (fst (register E hk cb opts w)) = hasInstance w"
  by (cases rule: register_cases [of E hk opts w cb]) simp_all

lemma register_counter [simp]:
  "registrationIdCounter (fst (register E hk cb opts w)) = Suc (registrationIdCounter w)"
  by (cases rule: register_cases [of E hk opts w cb]) simp_all

lemma unregister_trace [simp]: "trace (unregister E i w) = trace w"
  by (simp add: unregister_def Let_def split: option.splits)

lemma unregister_frame [simp]:
  "assigned (unregister E i w) = assigned w"
  "registrationIdCounter (unregister E i w) = registrationIdCounter w"
  "hasInstance (unregister E i w) = hasInstance w"
  by (simp_all add: unregister_def Let_def split: option.splits)

lemma unregister_registrations:
  "registrations (unregister E i w) = AList.delete i (registrations w)"
  by (simp add: unregister_def Let_def AList.delete_id map_of_eq_None_iff split: option.splits)

lemma runAction_trace [simp]: "trace (runAction E a w) = trace w"
  by (cases a) simp_all

lemma runScript_trace [simp]: "trace (runScript E acts w) = trace w"
  unfolding runScript_def by (induction acts arbitrary: w) simp_all

lemma setHasFired_frame [simp]:
  "trace (setHasFired i b w) = trace w"
  "assigned (setHasFired i b w) = assigned w"
  "registrationIdCounter (setHasFired i b w) = registrationIdCounter w"
  "targetRegistrations (setHasFired i b w) = targetRegistrations w"
  "targetListeners (setHasFired i b w) = targetListeners w"
  "setObjects (setHasFired i b w) = setObjects w"
  "attached (setHasFired i b w) = attached w"
  "hasInstance (setHasFired i b w) = hasInstance w"
  by (simp_all add: setHasFired_def)

section \<open>What is kept by a dispatch is what the calls of a callback keep\<close>

text \<open>
  A property of the world that \<^verbatim>\<open>register\<close> and \<^verbatim>\<open>unregister\<close> keep, and that does not
  read the trace or the latches, is kept by a callback, by the loop body and by the
  whole loop, whatever the fuel.
\<close>

lemma runScript_keeps:
  assumes reg: "\<And>hk cb opts w. P w \<Longrightarrow> P (fst (register E hk cb opts w))"
    and unreg: "\<And>i w. P w \<Longrightarrow> P (unregister E i w)"
  shows "P w \<Longrightarrow> P (runScript E acts w)"
  unfolding runScript_def
proof (induction acts arbitrary: w)
  case Nil
  then show ?case by simp
next
  case (Cons a acts)
  have "P (runAction E a w)"
    using Cons.prems reg unreg by (cases a) simp_all
  then show ?case using Cons.IH by simp
qed

lemma executeHotkeyCallback_keeps:
  assumes reg: "\<And>hk cb opts w. P w \<Longrightarrow> P (fst (register E hk cb opts w))"
    and unreg: "\<And>i w. P w \<Longrightarrow> P (unregister E i w)"
    and tr: "\<And>w t. P w \<Longrightarrow> P (w\<lparr> trace := t \<rparr>)"
  shows "P w \<Longrightarrow> P (executeHotkeyCallback E r w)"
proof -
  assume "P w"
  then have "P (w\<lparr> trace := t \<rparr>)" for t
    by (rule tr)
  then show ?thesis
    unfolding executeHotkeyCallback_def Let_def
    using reg unreg
    by (intro runScript_keeps [where P = P]) (auto simp: tr)
qed

lemma processRegistration_keeps:
  assumes reg: "\<And>hk cb opts w. P w \<Longrightarrow> P (fst (register E hk cb opts w))"
    and unreg: "\<And>i w. P w \<Longrightarrow> P (unregister E i w)"
    and tr: "\<And>w t. P w \<Longrightarrow> P (w\<lparr> trace := t \<rparr>)"
    and hf: "\<And>i b w. P w \<Longrightarrow> P (setHasFired i b w)"
  shows "P w \<Longrightarrow> P (processRegistration E event tg kind i w)"
proof -
  assume P: "P w"
  have cm: "P (consultMatcher j w)" for j
    using P by (simp add: consultMatcher_def tr)
  from reg unreg tr cm have ex: "P (executeHotkeyCallback E r (consultMatcher j w))" for r j
    by (rule executeHotkeyCallback_keeps [where P = P])
  show ?thesis
    using P ex cm hf
    by (simp add: processRegistration_def Let_def split: option.splits)
qed

lemma forOf_keeps:
  assumes reg: "\<And>hk cb opts w. P w \<Longrightarrow> P (fst (register E hk cb opts w))"
    and unreg: "\<And>i w. P w \<Longrightarrow> P (unregister E i w)"
    and tr: "\<And>w t. P w \<Longrightarrow> P (w\<lparr> trace := t \<rparr>)"
    and hf: "\<And>i b w. P w \<Longrightarrow> P (setHasFired i b w)"
  shows "P w \<Longrightarrow> P (snd (snd (forOf fuel E event tg kind a pos w)))"
proof (induction fuel arbitrary: pos w)
  case 0
  then show ?case by simp
next
  case (Suc fuel)
  have step: "P (processRegistration E event tg kind i w)" for i
    using reg unreg tr hf Suc.prems by (rule processRegistration_keeps [where P = P])
  show ?case
  proof (cases "length (setAt w a) \<le> pos")
    case True
    then show ?thesis using Suc.prems by simp
  next
    case False
    show ?thesis
    proof (cases "setAt w a ! pos")
      case None
      then show ?thesis using False Suc.IH [OF Suc.prems, of "Suc pos"] by simp
    next
      case (Some i)
      then show ?thesis
        using False Suc.IH [OF step [of i], of "Suc pos"]
        by (auto split: prod.splits)
    qed
  qed
qed

lemma dispatchEvent_keeps:
  assumes reg: "\<And>hk cb opts w. P w \<Longrightarrow> P (fst (register E hk cb opts w))"
    and unreg: "\<And>i w. P w \<Longrightarrow> P (unregister E i w)"
    and tr: "\<And>w t. P w \<Longrightarrow> P (w\<lparr> trace := t \<rparr>)"
    and hf: "\<And>i b w. P w \<Longrightarrow> P (setHasFired i b w)"
  shows "P w \<Longrightarrow> P (snd (snd (dispatchEvent fuel E tg kind event w)))"
proof -
  assume "P w"
  with reg unreg tr hf have "P (snd (snd (forOf fuel E event tg kind a 0 w)))" for a
    by (rule forOf_keeps [where P = P])
  then show ?thesis
    using \<open>P w\<close>
    by (simp add: dispatchEvent_def processTargetEvent_def split: option.splits)
qed

section \<open>Registration ids\<close>

lemma assignedInOrder_distinct:
  assumes "assignedInOrder w"
  shows "distinct (assigned w)"
proof -
  from assms obtain ks where ks: "assigned w = map hotkeyId ks" "sorted_wrt (<) ks"
    unfolding assignedInOrder_def by blast
  from ks(2) have "distinct ks"
    by (simp add: strict_sorted_iff)
  then show ?thesis
    using ks(1) by (simp add: distinct_map inj_on_def)
qed

lemma map_entry_keys [simp]: "map fst (AList.map_entry k f xs) = map fst xs"
  by (induction xs) auto

lemma dom_map_entry' [simp]: "fst ` set (AList.map_entry k f xs) = fst ` set xs"
  using map_entry_keys [of k f xs] by (metis set_map)

lemma idsRecorded_register: "idsRecorded w \<Longrightarrow> idsRecorded (fst (register E hk cb opts w))"
proof -
  assume a: "idsRecorded w"
  then obtain ks where ks: "assigned w = map hotkeyId ks" "sorted_wrt (<) ks"
      "\<forall>k \<in> set ks. k \<le> registrationIdCounter w"
    unfolding idsRecorded_def assignedInOrder_def by blast
  let ?c = "Suc (registrationIdCounter w)"
  have new: "sorted_wrt (<) (ks @ [?c])" "\<forall>k \<in> set (ks @ [?c]). k \<le> ?c"
    using ks(2,3) by (auto simp: sorted_wrt_append)
  have old: "\<forall>k \<in> set ks. k \<le> ?c"
    using ks(3) by auto
  show ?thesis
  proof (cases rule: register_cases [of E hk opts w cb])
    case (Throws err)
    have "assignedInOrder (fst (register E hk cb opts w))"
      unfolding assignedInOrder_def
      using ks(1,2) old by (intro exI [of _ ks]) (simp add: Throws)
    then show ?thesis
      using a by (simp add: idsRecorded_def Throws)
  next
    case (Registers parsed)
    have "assignedInOrder (fst (register E hk cb opts w))"
      unfolding assignedInOrder_def
      using ks(1) new by (intro exI [of _ "ks @ [?c]"]) (simp add: Registers)
    moreover have "set (map fst (registrations (fst (register E hk cb opts w))))
        \<subseteq> set (assigned (fst (register E hk cb opts w)))"
      using a by (auto simp: Registers idsRecorded_def dom_update)
    ultimately show ?thesis
      by (simp add: idsRecorded_def)
  qed
qed

lemma idsRecorded_unregister: "idsRecorded w \<Longrightarrow> idsRecorded (unregister E i w)"
  using dom_delete_subset [of i "registrations w"]
  by (auto simp: idsRecorded_def assignedInOrder_def unregister_registrations)

lemma idsRecorded_trace: "idsRecorded w \<Longrightarrow> idsRecorded (w\<lparr> trace := t \<rparr>)"
  by (simp add: idsRecorded_def assignedInOrder_def)

lemma idsRecorded_setHasFired: "idsRecorded w \<Longrightarrow> idsRecorded (setHasFired i b w)"
  by (simp add: idsRecorded_def assignedInOrder_def) (simp add: setHasFired_def)

lemma fold_remove_frame [simp]:
  "assigned (fold (removeListenersForTarget E) ts w) = assigned w"
  "registrationIdCounter (fold (removeListenersForTarget E) ts w) = registrationIdCounter w"
  "setObjects (fold (removeListenersForTarget E) ts w) = setObjects w"
  "trace (fold (removeListenersForTarget E) ts w) = trace w"
  by (induction ts arbitrary: w) simp_all

lemma destroy_frame [simp]:
  "assigned (destroy E w) = assigned w"
  "registrationIdCounter (destroy E w) = registrationIdCounter w"
  "registrations (destroy E w) = []"
  "targetRegistrations (destroy E w) = []"
  "targetListeners (destroy E w) = []"
  by (simp_all add: destroy_def)

lemma idsRecorded_getInstance: "idsRecorded w \<Longrightarrow> idsRecorded (getInstance E w)"
  by (simp add: idsRecorded_def assignedInOrder_def getInstance_def)

lemma idsRecorded_resetInstance: "idsRecorded w \<Longrightarrow> idsRecorded (resetInstance E w)"
  by (simp add: idsRecorded_def assignedInOrder_def resetInstance_def)

lemma idsRecorded_perform: "idsRecorded w \<Longrightarrow> idsRecorded (perform E c w)"
proof (cases c)
  case (Dispatch fuel tg kind event)
  assume "idsRecorded w"
  then have "idsRecorded (snd (snd (dispatchEvent fuel E tg kind event w)))"
    by (rule dispatchEvent_keeps [where P = idsRecorded, rotated 4])
       (simp_all add: idsRecorded_register idsRecorded_unregister idsRecorded_trace
          idsRecorded_setHasFired)
  then show ?thesis using Dispatch by simp
qed (simp_all add: idsRecorded_register idsRecorded_unregister idsRecorded_getInstance
      idsRecorded_resetInstance)

lemma idsRecorded_run: "idsRecorded w \<Longrightarrow> idsRecorded (run E calls w)"
  unfolding run_def by (induction calls arbitrary: w) (simp_all add: idsRecorded_perform)

lemma idsRecorded_initial: "idsRecorded initialWorld"
  by (simp add: idsRecorded_def assignedInOrder_def initialWorld_def)

text \<open>
  The ids given in a run, those given to callbacks that register during a dispatch
  included, are pairwise distinct, and every registration in the table has one of them.
  \<open>assigned\<close> is the list of the ids \<^verbatim>\<open>register\<close> has returned.
\<close>

lemma register_records:
  assumes "register E hk cb opts w = (w1, Inr i)"
  shows "assigned w1 = assigned w @ [i]"
proof -
  from assms have "snd (register E hk cb opts w) = Inr i" "w1 = fst (register E hk cb opts w)"
    by simp_all
  then show ?thesis
    by (cases rule: register_cases [of E hk opts w cb]) simp_all
qed

lemma ids_given_are_distinct:
  "distinct (assigned (run E calls initialWorld))
   \<and> set (map fst (registrations (run E calls initialWorld)))
       \<subseteq> set (assigned (run E calls initialWorld))
   \<and> (\<exists>ks. assigned (run E calls initialWorld) = map hotkeyId ks \<and> sorted_wrt (<) ks)"
proof -
  have r: "idsRecorded (run E calls initialWorld)"
    by (rule idsRecorded_run) (rule idsRecorded_initial)
  then have "distinct (assigned (run E calls initialWorld))"
    by (simp add: idsRecorded_def assignedInOrder_distinct)
  moreover from r have "\<exists>ks. assigned (run E calls initialWorld) = map hotkeyId ks
      \<and> sorted_wrt (<) ks"
    unfolding idsRecorded_def assignedInOrder_def by blast
  ultimately show ?thesis
    using r by (simp add: idsRecorded_def)
qed

section \<open>The counter never goes back\<close>





text \<open>Every state a run or a dispatch goes through comes later.\<close>

lemma later_trans:
  assumes "later E w w'" and "later E w' w''"
  shows "later E w w''"
  using assms(2,1) by (induction rule: later.induct) (auto intro: later.intros)


lemma later_processRegistration: "later E w (processRegistration E event tg kind i w)"
proof -
  have "later E w (processRegistration E event tg kind i w)"
  proof (rule processRegistration_keeps [where P = "later E w"])
    show "later E w (fst (register E hk cb opts v))" if "later E w v" for hk cb opts v
      using later.callback [OF that, of "Register hk (fst cb) (snd cb) opts"] by simp
    show "later E w (unregister E j v)" if "later E w v" for j v
      using later.callback [OF that, of "Unregister j"] by simp
    show "later E w (v\<lparr> trace := t \<rparr>)" if "later E w v" for v t
      using that by (rule later.effect)
    show "later E w (setHasFired j b v)" if "later E w v" for j b v
      using that by (rule later.latch)
    show "later E w w" by (rule later.now)
  qed
  then show ?thesis .
qed

section \<open>Two registrations never share an id\<close>







section \<open>One registration and one event\<close>

lemma executeHotkeyCallback_trace:
  "trace (executeHotkeyCallback E r (consultMatcher (regId r) w)) = trace w @ firing r"
  by (simp add: executeHotkeyCallback_def consultMatcher_def firing_def Let_def)

text \<open>
  Claim C3. A registration with \<^verbatim>\<open>requireReset\<close> that has fired is skipped by every press
  event: the loop body leaves the world as it found it, so the matcher is not asked
  (for any matcher), no \<^verbatim>\<open>preventDefault\<close> or \<^verbatim>\<open>stopPropagation\<close> is applied, the callback
  does not run and the latch stays set.
\<close>

theorem latched_press_is_skipped:
  assumes "map_of (registrations w) i = Some r"
    and "requireReset (options r)" and "hasFired r"
  shows "processRegistration E event tg Keydown i w = w
    \<and> trace (processRegistration E event tg Keydown i w) = trace w"
  using assms by (simp add: processRegistration_def)

theorem latched_press_is_skipped_witness:
  "map_of (registrations saveHeld) ''hotkey_1'' = Some savedRegistration
   \<and> requireReset (options savedRegistration) \<and> hasFired savedRegistration
   \<and> processRegistration page (keyEvent ''s'' True Document Document) Document Keydown
        ''hotkey_1'' saveHeld = saveHeld
   \<and> trace saveHeld = [ConsultMatcher ''hotkey_1'', Invoke 1 ''hotkey_1'']"
proof -
  have h1: "map_of (registrations saveHeld) ''hotkey_1'' = Some savedRegistration"
    by code_simp
  have h2: "requireReset (options savedRegistration)"
    by code_simp
  have h3: "hasFired savedRegistration"
    by code_simp
  have h4: "trace saveHeld = [ConsultMatcher ''hotkey_1'', Invoke 1 ''hotkey_1'']"
    by code_simp
  from latched_press_is_skipped [OF h1 h2 h3] h1 h2 h3 h4 show ?thesis
    by simp
qed

lemma input_isEventForTarget:
  assumes "isInputElement E (evTarget event)" and "evTarget event = Some tg"
  shows "isEventForTarget E event tg"
  using assms
  by (auto simp: isInputElement_def isEventForTarget_def isHTMLElement_def
      split: EventTarget.splits if_splits)

text \<open>
  For the origins that \<^verbatim>\<open>isInputElement\<close> recognises. A registration that ignores inputs
  (the default) is skipped by every event whose origin is such an element other than its
  own scope: the world is left as it was. When the origin is its own scope, the
  registration is treated as any other: enabled, triggered by this kind of event, not
  latched, it fires on match.
\<close>

lemma input_origin_suppresses_unless_scoped:
  assumes "map_of (registrations w) i = Some r"
    and "ignoreInputs (options r)" and "isInputElement E (evTarget event)"
  shows "(evTarget event \<noteq> Some (target r) \<longrightarrow> processRegistration E event tg kind i w = w)
    \<and> (evTarget event = Some (target r) \<and> tg = target r \<and> enabled (options r)
        \<and> eventType (options r) = kind \<and> \<not> (kind = Keydown \<and> requireReset (options r) \<and> hasFired r)
        \<and> matchesKeyboardEvent E event (parsedHotkey r) (platform (options r))
       \<longrightarrow> trace (processRegistration E event tg kind i w) = trace w @ firing r)"
proof (intro conjI impI)
  assume "evTarget event \<noteq> Some (target r)"
  then show "processRegistration E event tg kind i w = w"
    using assms by (simp add: processRegistration_def)
next
  assume a: "evTarget event = Some (target r) \<and> tg = target r \<and> enabled (options r)
        \<and> eventType (options r) = kind \<and> \<not> (kind = Keydown \<and> requireReset (options r) \<and> hasFired r)
        \<and> matchesKeyboardEvent E event (parsedHotkey r) (platform (options r))"
  then have "isEventForTarget E event tg"
    using assms(3) by (simp add: input_isEventForTarget)
  then show "trace (processRegistration E event tg kind i w) = trace w @ firing r"
    using assms a
    by (cases kind) (auto simp: processRegistration_def Let_def executeHotkeyCallback_trace)
qed


lemma input_origin_suppresses_unless_scoped_on_page:
  "map_of (registrations documentScoped) ''hotkey_1''
      = Some (newRegistration ''hotkey_1'' (Str ''K'')
                \<lparr> key = ''K'', ctrl = False, shift = False, alt = False, meta = False \<rparr>
                (1, []) noOptions Mac Document)
   \<and> isInputElement page (Some (Element 2))
   \<and> processRegistration page (keyEvent ''k'' False (Element 2) Document) Document Keydown
        ''hotkey_1'' documentScoped = documentScoped
   \<and> trace (processRegistration page (keyEvent ''k'' False (Element 2) (Element 2)) (Element 2)
        Keydown ''hotkey_1'' inputScoped)
      = [ConsultMatcher ''hotkey_1'', Invoke 1 ''hotkey_1'']"
proof -
  let ?rd = "newRegistration ''hotkey_1'' (Str ''K'')
      \<lparr> key = ''K'', ctrl = False, shift = False, alt = False, meta = False \<rparr>
      (1, []) noOptions Mac Document"
  let ?ri = "newRegistration ''hotkey_1'' (Str ''K'')
      \<lparr> key = ''K'', ctrl = False, shift = False, alt = False, meta = False \<rparr>
      (1, []) (noOptions\<lparr> optTarget := Some (Element 2) \<rparr>) Mac (Element 2)"
  let ?out = "keyEvent ''k'' False (Element 2) Document"
  let ?own = "keyEvent ''k'' False (Element 2) (Element 2)"
  have d1: "map_of (registrations documentScoped) ''hotkey_1'' = Some ?rd"
    by code_simp
  have d2: "ignoreInputs (options ?rd)"
    by code_simp
  have d3: "isInputElement page (evTarget ?out)"
    by code_simp
  have d4: "evTarget ?out \<noteq> Some (target ?rd)"
    by code_simp
  have i1: "map_of (registrations inputScoped) ''hotkey_1'' = Some ?ri"
    by code_simp
  have i2: "ignoreInputs (options ?ri)"
    by code_simp
  have i3: "isInputElement page (evTarget ?own)"
    by code_simp
  have i4: "evTarget ?own = Some (target ?ri) \<and> Element 2 = target ?ri \<and> enabled (options ?ri)
      \<and> eventType (options ?ri) = Keydown
      \<and> \<not> (Keydown = Keydown \<and> requireReset (options ?ri) \<and> hasFired ?ri)
      \<and> matchesKeyboardEvent page ?own (parsedHotkey ?ri) (platform (options ?ri))"
    by code_simp
  have i5: "trace inputScoped @ firing ?ri = [ConsultMatcher ''hotkey_1'', Invoke 1 ''hotkey_1'']"
    by code_simp
  have i6: "isInputElement page (Some (Element 2))"
    by code_simp
  from input_origin_suppresses_unless_scoped [OF d1 d2 d3, of Document Keydown] d4
  have "processRegistration page ?out Document Keydown ''hotkey_1'' documentScoped
      = documentScoped"
    by blast
  moreover from input_origin_suppresses_unless_scoped [OF i1 i2 i3, of "Element 2" Keydown] i4
  have "trace (processRegistration page ?own (Element 2) Keydown ''hotkey_1'' inputScoped)
      = trace inputScoped @ firing ?ri"
    by blast
  ultimately show ?thesis
    using d1 i5 i6 by simp
qed

text \<open>What \<^verbatim>\<open>isInputElement\<close> recognises, in full.\<close>

lemma isInputElement_iff:
  "isInputElement E (Some (Element x)) \<longleftrightarrow>
     elementClass E x = HTMLInputElement \<or> elementClass E x = HTMLTextAreaElement
     \<or> elementClass E x = HTMLSelectElement
     \<or> (elementClass E x = HTMLOtherElement
         \<and> (contentEditable E x = ''true'' \<or> contentEditable E x = ''''))"
  by (cases "elementClass E x") (simp_all add: isInputElement_def isHTMLElement_def)

text \<open>
  Claim C6 asks that a registration that ignores inputs be skipped whenever the origin
  of the event is an element with content editing enabled. \<^verbatim>\<open>isInputElement\<close> compares the
  \<^verbatim>\<open>contentEditable\<close> property with \<^verbatim>\<open>'true'\<close> and \<^verbatim>\<open>''\<close> only. An element that is not an input,
  a text area or a select and whose property reads anything else (\<^verbatim>\<open>'plaintext-only'\<close>,
  which enables editing, included) is not taken for an input element: a registration the
  event reaches otherwise fires on match, whether it ignores inputs or not.
\<close>

theorem unrecognised_editable_origin_fires:
  assumes "map_of (registrations w) i = Some r"
    and "elementClass E x = HTMLOtherElement"
    and "contentEditable E x \<noteq> ''true''" and "contentEditable E x \<noteq> ''''"
    and "evTarget event = Some (Element x)"
    and "isEventForTarget E event tg" and "enabled (options r)"
    and "eventType (options r) = kind"
    and "\<not> (kind = Keydown \<and> requireReset (options r) \<and> hasFired r)"
    and "matchesKeyboardEvent E event (parsedHotkey r) (platform (options r))"
  shows "isInputElement E (evTarget event) = False
    \<and> trace (processRegistration E event tg kind i w) = trace w @ firing r"
proof -
  have n: "isInputElement E (evTarget event) = False"
    using assms(2-5) by (simp add: isInputElement_iff)
  then show ?thesis
    using assms(1,6-10)
    by (cases kind) (auto simp: processRegistration_def Let_def executeHotkeyCallback_trace)
qed

theorem unrecognised_editable_origin_fires_witness:
  "contentEditable editor 3 = ''plaintext-only''
   \<and> ignoreInputs (options (newRegistration ''hotkey_1'' (Str ''K'')
          \<lparr> key = ''K'', ctrl = False, shift = False, alt = False, meta = False \<rparr>
          (1, []) noOptions Mac Document))
   \<and> isInputElement editor (Some (Element 3)) = False
   \<and> trace (processRegistration editor (keyEvent ''k'' False (Element 3) Document) Document
        Keydown ''hotkey_1'' editing)
      = [ConsultMatcher ''hotkey_1'', Invoke 1 ''hotkey_1'']
   \<and> processRegistration editor (keyEvent ''k'' False (Element 4) Document) Document
        Keydown ''hotkey_1'' editing = editing"
proof -
  let ?r = "newRegistration ''hotkey_1'' (Str ''K'')
      \<lparr> key = ''K'', ctrl = False, shift = False, alt = False, meta = False \<rparr>
      (1, []) noOptions Mac Document"
  let ?e = "keyEvent ''k'' False (Element 3) Document"
  have h1: "map_of (registrations editing) ''hotkey_1'' = Some ?r"
    by code_simp
  have h2: "elementClass editor 3 = HTMLOtherElement"
    by code_simp
  have h3: "contentEditable editor 3 \<noteq> ''true''" and h4: "contentEditable editor 3 \<noteq> ''''"
    by code_simp+
  have h5: "evTarget ?e = Some (Element 3)"
    by code_simp
  have h6: "isEventForTarget editor ?e Document"
    by code_simp
  have h7: "enabled (options ?r)" and h8: "eventType (options ?r) = Keydown"
    by code_simp+
  have h9: "\<not> (Keydown = Keydown \<and> requireReset (options ?r) \<and> hasFired ?r)"
    by code_simp
  have h10: "matchesKeyboardEvent editor ?e (parsedHotkey ?r) (platform (options ?r))"
    by code_simp
  have p: "contentEditable editor 3 = ''plaintext-only''"
    and g: "ignoreInputs (options ?r)"
    and t: "trace editing @ firing ?r = [ConsultMatcher ''hotkey_1'', Invoke 1 ''hotkey_1'']"
    and q: "processRegistration editor (keyEvent ''k'' False (Element 4) Document) Document
        Keydown ''hotkey_1'' editing = editing"
    by code_simp+
  from unrecognised_editable_origin_fires [OF h1 h2 h3 h4 h5 h6 h7 h8 h9 h10] h5 p g t q
  show ?thesis
    by simp
qed

section \<open>The latch and the release of a key\<close>

lemma toLowerCase_eq_iff_releases:
  "shouldResetRegistration parsed event = releasesKeyOf parsed (evKey event)"
  by (auto simp: shouldResetRegistration_def releasesKeyOf_def modifierKeyName_def Let_def)

lemma idsBounded_register: "idsBounded w \<Longrightarrow> idsBounded (fst (register E hk cb opts w))"
proof (cases rule: register_cases [of E hk opts w cb])
  case (Throws err)
  assume "idsBounded w"
  then show ?thesis
    unfolding idsBounded_def Throws by (auto intro: le_SucI)
next
  case (Registers parsed)
  assume a: "idsBounded w"
  have "set (AList.update k v xs) \<subseteq> insert (k, v) (set xs)" for k and v :: HotkeyRegistration and xs
    by (induction xs) auto
  then show ?thesis
    using a unfolding idsBounded_def Registers
    by (fastforce simp: newRegistration_def intro: le_SucI)
qed

lemma idsBounded_unregister: "idsBounded w \<Longrightarrow> idsBounded (unregister E i w)"
  unfolding idsBounded_def unregister_registrations
  by (auto simp: AList.delete_eq)

lemma register_other_entry:
  assumes "idsBounded w" and "k \<le> registrationIdCounter w"
  shows "map_of (registrations (fst (register E hk cb opts w))) (hotkeyId k)
    = map_of (registrations w) (hotkeyId k)"
  using assms
  by (cases rule: register_cases [of E hk opts w cb]) (simp_all add: update_conv')

lemma unregister_entry:
  "map_of (registrations (unregister E j w)) i = (if i = j then None else map_of (registrations w) i)"
  by (simp add: unregister_registrations delete_conv')

lemma runScript_entry:
  assumes "idsBounded w" and "k \<le> registrationIdCounter w"
  shows "map_of (registrations (runScript E acts w)) (hotkeyId k)
    = (if Unregister (hotkeyId k) \<in> set acts then None else map_of (registrations w) (hotkeyId k))"
  using assms unfolding runScript_def
proof (induction acts arbitrary: w)
  case Nil
  then show ?case by simp
next
  case (Cons a acts)
  have b: "idsBounded (runAction E a w)"
    using Cons.prems(1) by (cases a) (simp_all add: idsBounded_register idsBounded_unregister)
  have c: "k \<le> registrationIdCounter (runAction E a w)"
    using Cons.prems(2) by (cases a) simp_all
  have e: "map_of (registrations (runAction E a w)) (hotkeyId k)
      = (if a = Unregister (hotkeyId k) then None else map_of (registrations w) (hotkeyId k))"
    using Cons.prems by (cases a) (auto simp: register_other_entry unregister_entry)
  show ?case
    using Cons.IH [OF b c] e by auto
qed


lemma executeHotkeyCallback_entry:
  assumes "idsBounded w" and "k \<le> registrationIdCounter w"
  shows "map_of (registrations (executeHotkeyCallback E r (consultMatcher j w))) (hotkeyId k)
    = (if Unregister (hotkeyId k) \<in> set (snd (callback r)) then None
       else map_of (registrations w) (hotkeyId k))"
proof -
  have "idsBounded (w\<lparr> trace := t \<rparr>)" for t
    using assms(1) by (simp add: idsBounded_def)
  then show ?thesis
    using assms(2)
    by (simp add: executeHotkeyCallback_def consultMatcher_def Let_def runScript_entry)
qed

lemma setHasFired_entry:
  "map_of (registrations (setHasFired i b w)) i
    = map_option (\<lambda>r. r\<lparr> hasFired := b \<rparr>) (map_of (registrations w) i)"
  by (simp add: setHasFired_def map_of_map_entry split: option.splits)

text \<open>
  Claim C4, as the code has it. A release event that reaches a latched registration
  (it satisfies the scope, the registration is enabled, the origin is not an input the
  registration ignores) clears the latch exactly when the released key is, up to case,
  the primary key or names a modifier the hotkey requires; any other key leaves the
  latch set. The one exception is a release-triggered registration whose own callback
  unregisters it, which is then gone.
\<close>

theorem release_clears_latch_iff_key_of_hotkey:
  assumes "idsBounded w" and "map_of (registrations w) i = Some r"
    and "requireReset (options r)" and "hasFired r" and "reaches E event tg r"
  shows "map_of (registrations (processRegistration E event tg Keyup i w)) i =
    (if eventType (options r) = Keyup
        \<and> matchesKeyboardEvent E event (parsedHotkey r) (platform (options r))
        \<and> Unregister i \<in> set (snd (callback r))
     then None
     else Some (r\<lparr> hasFired := \<not> releasesKeyOf (parsedHotkey r) (evKey event) \<rparr>))"
proof -
  from assms(2) have "(i, r) \<in> set (registrations w)"
    by (rule map_of_SomeD)
  with assms(1) obtain k where k: "k \<le> registrationIdCounter w" "i = hotkeyId k"
    unfolding idsBounded_def by fastforce
  have same: "r\<lparr> hasFired := True \<rparr> = r"
    using assms(4) by simp
  have cm: "map_of (registrations (consultMatcher j w)) i = Some r" for j
    using assms(2) by (simp add: consultMatcher_def)
  have ex: "map_of (registrations (executeHotkeyCallback E r (consultMatcher j w))) i
      = (if Unregister i \<in> set (snd (callback r)) then None else Some r)" for j
    using executeHotkeyCallback_entry [OF assms(1) k(1), of E r j] assms(2) k(2) by simp
  from assms(5) have gates: "isEventForTarget E event tg" "enabled (options r)"
      "\<not> (ignoreInputs (options r) \<and> isInputElement E (evTarget event)
          \<and> evTarget event \<noteq> Some (target r))"
    by (simp_all add: reaches_def)
  have body: "processRegistration E event tg Keyup i w =
      (let w1 = (if eventType (options r) = Keyup then
                   (if matchesKeyboardEvent E event (parsedHotkey r) (platform (options r))
                    then executeHotkeyCallback E r (consultMatcher (regId r) w)
                    else consultMatcher (regId r) w)
                 else w)
       in if shouldResetRegistration (parsedHotkey r) event then setHasFired i False w1 else w1)"
    using assms(2-4) gates by (auto simp: processRegistration_def Let_def)
  show ?thesis
    unfolding body Let_def
    using assms(2) same cm ex
    by (simp add: setHasFired_entry toLowerCase_eq_iff_releases)
qed


theorem release_clears_latch_iff_key_of_hotkey_witness:
  "idsBounded saveHeld
   \<and> map_of (registrations saveHeld) ''hotkey_1'' = Some savedRegistration
   \<and> requireReset (options savedRegistration) \<and> hasFired savedRegistration
   \<and> reaches page (keyEvent ''Meta'' False Document Document) Document savedRegistration
   \<and> reaches page (keyEvent ''x'' True Document Document) Document savedRegistration
   \<and> map_of (registrations (processRegistration page (keyEvent ''Meta'' False Document Document)
         Document Keyup ''hotkey_1'' saveHeld)) ''hotkey_1''
       = Some (savedRegistration\<lparr> hasFired := False \<rparr>)
   \<and> map_of (registrations (processRegistration page (keyEvent ''x'' True Document Document)
         Document Keyup ''hotkey_1'' saveHeld)) ''hotkey_1''
       = Some savedRegistration"
proof -
  let ?up = "keyEvent ''Meta'' False Document Document"
  let ?other = "keyEvent ''x'' True Document Document"
  have regs: "registrations saveHeld = [(''hotkey_1'', savedRegistration)]"
    by code_simp
  have cnt: "registrationIdCounter saveHeld = 1"
    by code_simp
  have nm: "hotkeyId 1 = ''hotkey_1''" "regId savedRegistration = ''hotkey_1''"
    by code_simp+
  have h0: "idsBounded saveHeld"
    unfolding idsBounded_def regs cnt using nm by (auto intro: exI [of _ 1])
  have h1: "map_of (registrations saveHeld) ''hotkey_1'' = Some savedRegistration"
    by (simp add: regs)
  have h2: "requireReset (options savedRegistration)" and h3: "hasFired savedRegistration"
    by code_simp+
  have h4: "reaches page ?up Document savedRegistration"
    and h5: "reaches page ?other Document savedRegistration"
    by code_simp+
  have k1: "releasesKeyOf (parsedHotkey savedRegistration) (evKey ?up)"
    and k2: "\<not> releasesKeyOf (parsedHotkey savedRegistration) (evKey ?other)"
    and k3: "eventType (options savedRegistration) \<noteq> Keyup"
    by code_simp+
  have same: "savedRegistration\<lparr> hasFired := True \<rparr> = savedRegistration"
    using h3 by simp
  from release_clears_latch_iff_key_of_hotkey [OF h0 h1 h2 h3 h4] k1 k3
  have "map_of (registrations (processRegistration page ?up Document Keyup ''hotkey_1'' saveHeld))
      ''hotkey_1'' = Some (savedRegistration\<lparr> hasFired := False \<rparr>)"
    by simp
  moreover from release_clears_latch_iff_key_of_hotkey [OF h0 h1 h2 h3 h5] k2 k3 same
  have "map_of (registrations (processRegistration page ?other Document Keyup ''hotkey_1''
      saveHeld)) ''hotkey_1'' = Some savedRegistration"
    by simp
  ultimately show ?thesis
    using h0 h1 h2 h3 h4 h5 by simp
qed

text \<open>
  The claim as it is written speaks of every release event. A release of the primary
  key whose origin is a text input does not reach a registration on the document that
  ignores inputs: the loop goes on to the next id before it comes to the latch, and the
  registration stays latched.
\<close>

theorem release_in_input_leaves_latch:
  "map_of (registrations saveHeld) ''hotkey_1'' = Some savedRegistration
   \<and> requireReset (options savedRegistration) \<and> hasFired savedRegistration
   \<and> releasesKeyOf (parsedHotkey savedRegistration) ''s''
   \<and> dispatchEvent 1 page Document Keyup (keyEvent ''s'' True (Element 2) Document) saveHeld
       = (True, [''hotkey_1''], saveHeld)"
  by code_simp

section \<open>The scope of an event\<close>

text \<open>
  Claim C2 asks that an event whose attachment point is the root element of the
  document satisfy the document scope. \<^verbatim>\<open>isEventForTarget\<close> compares the attachment point
  with the document only, so no such event satisfies the document scope, whatever its
  origin.
\<close>

theorem document_root_attachment_is_rejected:
  "isEventForTarget E (event\<lparr> currentTarget := Some (Element (documentElement E)) \<rparr>) Document
     = False"
  by (simp add: isEventForTarget_def)

text \<open>On the example page, Mod+S registered on the document fires for Meta+s delivered
  with the document as \<^verbatim>\<open>currentTarget\<close>, and not with the root element.\<close>

lemma document_root_attachment_on_page:
  "dispatchEvent 1 page Document Keydown
        (keyEvent ''s'' True Document (Element (documentElement page))) saveOnce
       = (True, [''hotkey_1''], saveOnce)
   \<and> trace (snd (snd (dispatchEvent 1 page Document Keydown
        (keyEvent ''s'' True Document Document) saveOnce)))
       = [ConsultMatcher ''hotkey_1'', Invoke 1 ''hotkey_1'']"
  by code_simp

text \<open>What \<^verbatim>\<open>isEventForTarget\<close> decides, in full.\<close>

lemma isEventForTarget_iff:
  "isEventForTarget E event tg \<longleftrightarrow>
    ((tg = Document \<or> tg = Window) \<and> currentTarget event = Some tg)
    \<or> (\<exists>t. tg = Element t \<and> isHTMLElement E t
          \<and> (currentTarget event = Some tg
              \<or> (\<exists>n. evTarget event = Some n \<and> contains E t n)))"
  by (cases tg) (auto simp: isEventForTarget_def split: option.splits)

section \<open>Registering the same hotkey twice\<close>

lemma update_fresh:
  "k \<notin> fst ` set xs \<Longrightarrow> AList.update k v xs = xs @ [(k, v)]"
  by (induction xs) auto

lemma fresh_id:
  assumes "idsBounded w"
  shows "hotkeyId (Suc (registrationIdCounter w)) \<notin> fst ` set (registrations w)"
proof
  assume "hotkeyId (Suc (registrationIdCounter w)) \<in> fst ` set (registrations w)"
  then obtain p where "p \<in> set (registrations w)"
      "fst p = hotkeyId (Suc (registrationIdCounter w))"
    by auto
  with assms obtain k where "k \<le> registrationIdCounter w"
      "hotkeyId (Suc (registrationIdCounter w)) = hotkeyId k"
    unfolding idsBounded_def by metis
  then show False by simp
qed

text \<open>
  Claim C1 asks for a conflict check in \<^verbatim>\<open>register\<close>. There is none. Whatever is
  registered already and whatever the conflict policy in the options, a descriptor that
  parses is registered: the call returns the new id, the count grows by one, every
  registration there was is still there, and nothing is written to the trace.
\<close>

theorem register_makes_no_conflict_check:
  assumes "idsBounded w" and "parseHotkey E hk (resolvedPlatform opts w) = Inr parsed"
  shows "snd (register E hk cb opts w) = Inr (hotkeyId (Suc (registrationIdCounter w)))
    \<and> getRegistrationCount (fst (register E hk cb opts w)) = Suc (getRegistrationCount w)
    \<and> (\<forall>j r. map_of (registrations w) j = Some r
          \<longrightarrow> map_of (registrations (fst (register E hk cb opts w))) j = Some r)
    \<and> trace (fst (register E hk cb opts w)) = trace w"
proof (cases rule: register_cases [of E hk opts w cb])
  case (Throws err)
  with assms(2) show ?thesis by simp
next
  case (Registers parsed')
  have fresh: "hotkeyId (Suc (registrationIdCounter w)) \<notin> fst ` set (registrations w)"
    using assms(1) by (rule fresh_id)
  then have "map_of (registrations w) (hotkeyId (Suc (registrationIdCounter w))) = None"
    by (simp add: map_of_eq_None_iff)
  then show ?thesis
    using fresh
    by (auto simp: Registers(2) getRegistrationCount_def update_fresh update_conv')
qed

theorem register_makes_no_conflict_check_witness:
  "idsBounded (fst (register page (Str ''Mod+S'') (1, []) noOptions (getInstance page initialWorld)))
   \<and> snd (registeredTwice (Some Error)) = Inr ''hotkey_2''
   \<and> getRegistrationCount (fst (registeredTwice (Some Error))) = 2
   \<and> getRegistrationCount (fst (registeredTwice (Some Replace))) = 2
   \<and> trace (snd (snd (dispatchEvent 2 page Document Keydown
        (keyEvent ''s'' True Document Document) (fst (registeredTwice (Some Replace))))))
       = [ConsultMatcher ''hotkey_1'', Invoke 1 ''hotkey_1'',
          ConsultMatcher ''hotkey_2'', Invoke 2 ''hotkey_2'']"
proof -
  let ?w = "fst (register page (Str ''Mod+S'') (1, []) noOptions (getInstance page initialWorld))"
  let ?o = "noOptions\<lparr> optConflictBehavior := Some Error \<rparr>"
  let ?h = "\<lparr> key = ''S'', ctrl = False, shift = False, alt = False, meta = True \<rparr>"
  have "idsBounded (getInstance page initialWorld)"
    by (simp add: idsBounded_def getInstance_def initialWorld_def)
  then have b: "idsBounded ?w"
    by (rule idsBounded_register)
  have p: "parseHotkey page (Str ''Mod+S'') (resolvedPlatform ?o ?w) = Inr ?h"
    by code_simp
  have c: "registrationIdCounter ?w = 1" "getRegistrationCount ?w = 1"
    "hotkeyId (Suc 1) = ''hotkey_2''"
    by code_simp+
  from register_makes_no_conflict_check [OF b p, of "(2, [])"] c
  have "snd (registeredTwice (Some Error)) = Inr ''hotkey_2''"
    "getRegistrationCount (fst (registeredTwice (Some Error))) = 2"
    by (simp_all add: registeredTwice_def)
  moreover have "getRegistrationCount (fst (registeredTwice (Some Replace))) = 2"
    "trace (snd (snd (dispatchEvent 2 page Document Keydown
        (keyEvent ''s'' True Document Document) (fst (registeredTwice (Some Replace))))))
       = [ConsultMatcher ''hotkey_1'', Invoke 1 ''hotkey_1'',
          ConsultMatcher ''hotkey_2'', Invoke 2 ''hotkey_2'']"
    by code_simp+
  ultimately show ?thesis
    using b by simp
qed

section \<open>Sets of ids\<close>

lemma liveIds_Nil [simp]: "liveIds [] = []"
  by (simp add: liveIds_def map_filter_simps)

lemma liveIds_Cons [simp]:
  "liveIds (None # es) = liveIds es" "liveIds (Some i # es) = i # liveIds es"
  by (simp_all add: liveIds_def map_filter_simps)

lemma liveIds_append [simp]: "liveIds (xs @ ys) = liveIds xs @ liveIds ys"
  by (simp add: liveIds_def map_filter_def)

lemma set_liveIds: "set (liveIds es) = {i. Some i \<in> set es}"
proof (induction es)
  case Nil
  then show ?case by simp
next
  case (Cons e es)
  then show ?case by (cases e) auto
qed

lemma liveIds_empty_iff: "liveIds es = [] \<longleftrightarrow> (\<forall>i. Some i \<notin> set es)"
  using set_liveIds [of es] by (metis (mono_tags, lifting) empty_Collect_eq empty_iff mem_Collect_eq set_empty)

lemma liveIds_setAdd_nonempty [simp]: "liveIds (setAdd i es) \<noteq> []"
  by (auto simp: liveIds_empty_iff setAdd_def)

lemma setSize_zero_iff: "setSize es = 0 \<longleftrightarrow> liveIds es = []"
  by (auto simp: setSize_def liveIds_empty_iff filter_empty_conv) (metis not_None_eq)

lemma setAt_updates [simp]:
  "setAt (w\<lparr> registrations := rs \<rparr>) a = setAt w a"
  "setAt (w\<lparr> trace := t \<rparr>) a = setAt w a"
  "setAt (w\<lparr> registrationIdCounter := n \<rparr>) a = setAt w a"
  "setAt (w\<lparr> assigned := xs \<rparr>) a = setAt w a"
  "setAt (w\<lparr> targetRegistrations := ts \<rparr>) a = setAt w a"
  by (simp_all add: setAt_def)

lemma setAt_in_range: "a < length (setObjects w) \<Longrightarrow> setAt w a = setObjects w ! a"
  by (simp add: setAt_def)

section \<open>Tracking a registration\<close>

lemma track_Some:
  "map_of (targetRegistrations w) tg = Some a \<Longrightarrow>
    trackRegistration tg i w = w\<lparr> setObjects := (setObjects w)[a := setAdd i (setAt w a)] \<rparr>"
  by (simp add: trackRegistration_def)

lemma track_None:
  "map_of (targetRegistrations w) tg = None \<Longrightarrow>
    trackRegistration tg i w =
      w\<lparr> targetRegistrations := targetRegistrations w @ [(tg, length (setObjects w))],
         setObjects := setObjects w @ [[Some i]] \<rparr>"
  by (simp add: trackRegistration_def Let_def setAt_def setAdd_def map_add_def)

lemma track_heapOk: "heapOk w \<Longrightarrow> heapOk (trackRegistration tg i w)"
proof (cases "map_of (targetRegistrations w) tg")
  case None
  assume h: "heapOk w"
  from None have "tg \<notin> fst ` set (targetRegistrations w)"
    by (simp add: map_of_eq_None_iff)
  moreover from h have "length (setObjects w) \<notin> snd ` set (targetRegistrations w)"
    by (auto simp: heapOk_def list_all_iff)
  ultimately show ?thesis
    using h by (auto simp: track_None [OF None] heapOk_def list_all_iff)
next
  case (Some a)
  assume "heapOk w"
  then show ?thesis
    by (simp add: track_Some [OF Some] heapOk_def)
qed

lemma track_keys:
  "fst ` set (targetRegistrations (trackRegistration tg i w))
    = insert tg (fst ` set (targetRegistrations w))"
proof (cases "map_of (targetRegistrations w) tg")
  case None
  then show ?thesis by (simp add: track_None)
next
  case (Some a)
  then have "tg \<in> fst ` set (targetRegistrations w)"
    by (metis domI dom_map_of_conv_image_fst)
  then show ?thesis by (auto simp: track_Some [OF Some])
qed

lemma track_nonempty:
  assumes "heapOk w"
    and "list_all (\<lambda>p. liveIds (setObjects w ! snd p) \<noteq> []) (targetRegistrations w)"
  shows "list_all (\<lambda>p. liveIds (setObjects (trackRegistration tg i w) ! snd p) \<noteq> [])
    (targetRegistrations (trackRegistration tg i w))"
proof (cases "map_of (targetRegistrations w) tg")
  case None
  show ?thesis
    using assms by (auto simp: track_None [OF None] heapOk_def list_all_iff nth_append)
next
  case (Some a)
  have "liveIds ((setObjects w)[a := setAdd i (setAt w a)] ! b) \<noteq> []"
    if "b < length (setObjects w)" "liveIds (setObjects w ! b) \<noteq> []" for b
    using that by (cases "a = b") simp_all
  then show ?thesis
    using assms by (auto simp: track_Some [OF Some] heapOk_def list_all_iff)
qed

section \<open>Listener pairs\<close>

lemma listenerPairs_Nil [simp]: "listenerPairs [] = []"
  by (simp add: listenerPairs_def)

lemma listenerPairs_append [simp]:
  "listenerPairs (xs @ ys) = listenerPairs xs @ listenerPairs ys"
  by (simp add: listenerPairs_def)

lemma listenerPairs_single [simp]: "listenerPairs [t] = [(t, Keydown), (t, Keyup)]"
  by (simp add: listenerPairs_def)

lemma listenerPairs_Cons: "listenerPairs (t # ts) = (t, Keydown) # (t, Keyup) # listenerPairs ts"
  by (simp add: listenerPairs_def)

lemma set_listenerPairs: "(t, k) \<in> set (listenerPairs ts) \<longleftrightarrow> t \<in> set ts"
  by (cases k) (auto simp: listenerPairs_def)

lemma count_listenerPairs:
  "distinct ts \<Longrightarrow> count_list (listenerPairs ts) (t, k) = (if t \<in> set ts then 1 else 0)"
proof (induction ts)
  case Nil
  then show ?case by simp
next
  case (Cons x ts)
  then show ?case by (cases k) (auto simp: listenerPairs_Cons)
qed

lemma remove_listenerPairs:
  "distinct ts \<Longrightarrow>
    remove1 (t, Keyup) (remove1 (t, Keydown) (listenerPairs ts)) = listenerPairs (removeAll t ts)"
proof (induction ts)
  case Nil
  then show ?case by simp
next
  case (Cons x ts)
  then show ?case
    by (auto simp: listenerPairs_Cons set_listenerPairs remove1_idem)
qed


section \<open>The scope partition is kept\<close>

lemma heapOk_cong:
  "targetRegistrations w' = targetRegistrations w \<Longrightarrow> setObjects w' = setObjects w
    \<Longrightarrow> heapOk w' = heapOk w"
  by (simp add: heapOk_def)

lemma listenersOk_cong:
  "targetRegistrations w' = targetRegistrations w \<Longrightarrow> setObjects w' = setObjects w
    \<Longrightarrow> targetListeners w' = targetListeners w \<Longrightarrow> attached w' = attached w
    \<Longrightarrow> listenersOk w' = listenersOk w"
  by (simp add: listenersOk_def)

lemma ensure_partition:
  assumes "hasDocument E" and "heapOk w"
    and "list_all (\<lambda>p. liveIds (setObjects w ! snd p) \<noteq> []) (targetRegistrations w)"
    and "distinct (targetListeners w)"
    and "insert tg (set (targetListeners w)) = fst ` set (targetRegistrations w)"
    and "attached w = listenerPairs (targetListeners w)"
  shows "heapOk (ensureListenersForTarget E tg w) \<and> listenersOk (ensureListenersForTarget E tg w)"
proof -
  have "heapOk (ensureListenersForTarget E tg w)"
    using assms(2) by (simp add: heapOk_cong [of "ensureListenersForTarget E tg w" w])
  moreover have "listenersOk (ensureListenersForTarget E tg w)"
    using assms by (auto simp: listenersOk_def ensureListenersForTarget_def)
  ultimately show ?thesis by simp
qed

lemma register_partition:
  assumes "hasDocument E" and "heapOk w" and "listenersOk w"
  shows "heapOk (fst (register E hk cb opts w)) \<and> listenersOk (fst (register E hk cb opts w))"
proof (cases rule: register_cases [of E hk opts w cb])
  case (Throws err)
  then show ?thesis
    using assms(2,3) by (simp add: heapOk_def listenersOk_def)
next
  case (Registers parsed)
  let ?tg = "resolvedTarget E opts (Suc (registrationIdCounter w))"
  let ?i = "hotkeyId (Suc (registrationIdCounter w))"
  let ?w2 = "w\<lparr> registrationIdCounter := Suc (registrationIdCounter w),
       registrations := AList.update ?i
           (newRegistration ?i hk parsed cb opts (resolvedPlatform opts w) ?tg) (registrations w),
       assigned := assigned w @ [?i] \<rparr>"
  have h2: "heapOk ?w2" and l2: "listenersOk ?w2"
    using assms(2,3) by (simp_all add: heapOk_def listenersOk_def)
  let ?w3 = "trackRegistration ?tg ?i ?w2"
  have h3: "heapOk ?w3"
    using h2 by (rule track_heapOk)
  have n3: "list_all (\<lambda>p. liveIds (setObjects ?w3 ! snd p) \<noteq> []) (targetRegistrations ?w3)"
    using h2 l2 by (intro track_nonempty) (simp_all add: listenersOk_def)
  have k3: "insert ?tg (set (targetListeners ?w3)) = fst ` set (targetRegistrations ?w3)"
    using l2 by (simp add: track_keys listenersOk_def)
  have d3: "distinct (targetListeners ?w3)" "attached ?w3 = listenerPairs (targetListeners ?w3)"
    using l2 by (simp_all add: listenersOk_def)
  from ensure_partition [OF assms(1) h3 n3 d3(1) k3 d3(2)] show ?thesis
    by (simp add: Registers)
qed

lemma distinct_snd_delete:
  "distinct (map snd xs) \<Longrightarrow> distinct (map snd (AList.delete k xs))"
  by (simp add: AList.delete_eq distinct_map_filter)

lemma delete_subset: "set (AList.delete k xs) \<subseteq> set xs"
  by (auto simp: AList.delete_eq)

lemma dom_delete_eq: "fst ` set (AList.delete k xs) = fst ` set xs - {k}"
  by (auto simp: AList.delete_eq)

lemma unregister_cases:
  obtains (Absent) "map_of (registrations w) i = None" "unregister E i w = w"
  | (Untracked) r where "map_of (registrations w) i = Some r"
      "map_of (targetRegistrations w) (target r) = None"
      "unregister E i w = w\<lparr> registrations := AList.delete i (registrations w) \<rparr>"
  | (Shrinks) r a where "map_of (registrations w) i = Some r"
      "map_of (targetRegistrations w) (target r) = Some a"
      "a < length (setObjects w) \<Longrightarrow> liveIds (setDelete i (setObjects w ! a)) \<noteq> []"
      "unregister E i w = w\<lparr> registrations := AList.delete i (registrations w),
         setObjects := (setObjects w)[a := setDelete i (setAt w a)] \<rparr>"
  | (Empties) r a where "map_of (registrations w) i = Some r"
      "map_of (targetRegistrations w) (target r) = Some a"
      "a < length (setObjects w) \<Longrightarrow> liveIds (setDelete i (setObjects w ! a)) = []"
      "unregister E i w = removeListenersForTarget E (target r)
         (w\<lparr> registrations := AList.delete i (registrations w),
            setObjects := (setObjects w)[a := setDelete i (setAt w a)] \<rparr>)"
proof (cases "map_of (registrations w) i")
  case None
  then show ?thesis by (intro Absent) (simp_all add: unregister_def)
next
  case (Some r)
  show ?thesis
  proof (cases "map_of (targetRegistrations w) (target r)")
    case None
    with Some show ?thesis
      by (intro Untracked [of r]) (simp_all add: unregister_def Let_def)
  next
    case a: (Some a)
    let ?w2 = "w\<lparr> registrations := AList.delete i (registrations w),
         setObjects := (setObjects w)[a := setDelete i (setAt w a)] \<rparr>"
    have sa: "a < length (setObjects w) \<Longrightarrow> setAt ?w2 a = setDelete i (setObjects w ! a)"
      by (simp add: setAt_def)
    have un: "unregister E i w =
        (if setSize (setAt ?w2 a) = 0 then removeListenersForTarget E (target r) ?w2 else ?w2)"
      using Some a by (simp add: unregister_def Let_def)
    show ?thesis
    proof (cases "setSize (setAt ?w2 a) = 0")
      case True
      then have "a < length (setObjects w) \<Longrightarrow> liveIds (setDelete i (setObjects w ! a)) = []"
        using sa by (simp add: setSize_zero_iff)
      with Some a un True show ?thesis
        by (intro Empties [of r a]) simp_all
    next
      case False
      then have "a < length (setObjects w) \<Longrightarrow> liveIds (setDelete i (setObjects w ! a)) \<noteq> []"
        using sa by (simp add: setSize_zero_iff)
      with Some a un False show ?thesis
        by (intro Shrinks [of r a]) simp_all
    qed
  qed
qed

lemma unregister_partition:
  assumes "hasDocument E" and "heapOk w" and "listenersOk w"
  shows "heapOk (unregister E i w) \<and> listenersOk (unregister E i w)"
proof (cases rule: unregister_cases [of w i E])
  case Absent
  then show ?thesis using assms by simp
next
  case (Untracked r)
  then show ?thesis using assms(2,3) by (simp add: heapOk_def listenersOk_def)
next
  case (Shrinks r a)
  from Shrinks(2) have mem: "(target r, a) \<in> set (targetRegistrations w)"
    by (rule map_of_SomeD)
  with assms(2) have a: "a < length (setObjects w)"
    by (auto simp: heapOk_def list_all_iff)
  have "liveIds ((setObjects w)[a := setDelete i (setAt w a)] ! b) \<noteq> []"
    if "liveIds (setObjects w ! b) \<noteq> []" for b
    using that Shrinks(3) [OF a] a by (cases "a = b") (simp_all add: setAt_def)
  then show ?thesis
    using assms(2,3) by (auto simp: Shrinks(4) heapOk_def listenersOk_def list_all_iff)
next
  case (Empties r a)
  let ?tg = "target r"
  let ?w2 = "w\<lparr> registrations := AList.delete i (registrations w),
       setObjects := (setObjects w)[a := setDelete i (setAt w a)] \<rparr>"
  from Empties(2) have mem: "(?tg, a) \<in> set (targetRegistrations w)"
    by (rule map_of_SomeD)
  then have tgl: "?tg \<in> set (targetListeners w)"
    using assms(3) by (force simp: listenersOk_def)
  have other: "b \<noteq> a" if "(t, b) \<in> set (targetRegistrations w)" "t \<noteq> ?tg" for t b
  proof
    assume "b = a"
    from assms(2) have "inj_on snd (set (targetRegistrations w))"
      by (simp add: heapOk_def distinct_map)
    with that(1) mem \<open>b = a\<close> have "(t, b) = (?tg, a)"
      by (metis inj_onD snd_conv)
    with that(2) show False by simp
  qed
  have keep: "liveIds ((setObjects w)[a := x] ! snd p) \<noteq> []"
    if "p \<in> set (targetRegistrations w)" "fst p \<noteq> ?tg" for p x
  proof -
    from that other [of "fst p" "snd p"] have "snd p \<noteq> a" by simp
    moreover from that(1) assms(3) have "liveIds (setObjects w ! snd p) \<noteq> []"
      by (simp add: listenersOk_def list_all_iff)
    ultimately show ?thesis by simp
  qed
  have res: "unregister E i w =
      ?w2\<lparr> attached := remove1 (?tg, Keyup) (remove1 (?tg, Keydown) (attached w)),
           targetListeners := removeAll ?tg (targetListeners w),
           targetRegistrations := AList.delete ?tg (targetRegistrations w) \<rparr>"
    using assms(1) tgl by (simp add: Empties(4) removeListenersForTarget_def)
  have "heapOk (unregister E i w)"
    unfolding res using assms(2) delete_subset [of ?tg "targetRegistrations w"]
    by (auto simp: heapOk_def list_all_iff distinct_delete distinct_snd_delete)
  moreover have "listenersOk (unregister E i w)"
    unfolding res listenersOk_def
  proof (intro conjI)
    show "list_all (\<lambda>p. liveIds (setObjects
        (?w2\<lparr> attached := remove1 (?tg, Keyup) (remove1 (?tg, Keydown) (attached w)),
           targetListeners := removeAll ?tg (targetListeners w),
           targetRegistrations := AList.delete ?tg (targetRegistrations w) \<rparr>) ! snd p) \<noteq> [])
      (targetRegistrations
        (?w2\<lparr> attached := remove1 (?tg, Keyup) (remove1 (?tg, Keydown) (attached w)),
           targetListeners := removeAll ?tg (targetListeners w),
           targetRegistrations := AList.delete ?tg (targetRegistrations w) \<rparr>))"
      using keep by (auto simp: list_all_iff AList.delete_eq)
  qed (use assms(3) in \<open>auto simp: listenersOk_def dom_delete_eq remove_listenerPairs
         distinct_removeAll\<close>)
  ultimately show ?thesis by simp
qed

lemma fold_remove_listeners:
  assumes "hasDocument E"
  shows "distinct (targetListeners w) \<Longrightarrow> attached w = listenerPairs (targetListeners w) \<Longrightarrow>
    targetListeners (fold (removeListenersForTarget E) ts w)
        = filter (\<lambda>t. t \<notin> set ts) (targetListeners w)
    \<and> attached (fold (removeListenersForTarget E) ts w)
        = listenerPairs (filter (\<lambda>t. t \<notin> set ts) (targetListeners w))"
proof (induction ts arbitrary: w)
  case Nil
  then show ?case by simp
next
  case (Cons t ts)
  let ?w = "removeListenersForTarget E t w"
  have l: "targetListeners ?w = removeAll t (targetListeners w)"
    using assms by (simp add: removeListenersForTarget_def)
  have a: "attached ?w = listenerPairs (removeAll t (targetListeners w))"
    using assms Cons.prems
    by (auto simp: removeListenersForTarget_def remove_listenerPairs)
  have dl: "distinct (targetListeners ?w)" "attached ?w = listenerPairs (targetListeners ?w)"
    using Cons.prems(1) l a by (simp_all add: distinct_removeAll)
  have f: "filter (\<lambda>x. x \<notin> set ts) (removeAll t xs) = filter (\<lambda>x. x \<notin> set (t # ts)) xs" for xs
    by (induction xs) auto
  from Cons.IH [OF dl] show ?case
    by (simp only: fold_Cons comp_apply l f)
qed

lemma destroy_attached:
  assumes "hasDocument E" and "listenersOk w"
  shows "attached (destroy E w) = []"
proof -
  from assms(2) have "distinct (targetListeners w)" "attached w = listenerPairs (targetListeners w)"
    by (simp_all add: listenersOk_def)
  from fold_remove_listeners [OF assms(1) this, of "targetListeners w"] show ?thesis
    by (simp add: destroy_def)
qed

lemma partition_keeps_instance:
  assumes "hasDocument E"
  shows "hasInstance w \<and> heapOk w \<and> listenersOk w \<Longrightarrow>
    hasInstance (snd (snd (dispatchEvent fuel E tg kind event w)))
    \<and> heapOk (snd (snd (dispatchEvent fuel E tg kind event w)))
    \<and> listenersOk (snd (snd (dispatchEvent fuel E tg kind event w)))"
proof (rule dispatchEvent_keeps [where P = "\<lambda>w. hasInstance w \<and> heapOk w \<and> listenersOk w"])
  fix hk cb opts w
  assume "hasInstance w \<and> heapOk w \<and> listenersOk w"
  then show "hasInstance (fst (register E hk cb opts w)) \<and> heapOk (fst (register E hk cb opts w))
      \<and> listenersOk (fst (register E hk cb opts w))"
    using register_partition [OF assms, of w hk cb opts] by simp
next
  fix i w
  assume "hasInstance w \<and> heapOk w \<and> listenersOk w"
  then show "hasInstance (unregister E i w) \<and> heapOk (unregister E i w)
      \<and> listenersOk (unregister E i w)"
    using unregister_partition [OF assms, of w i] by simp
next
  fix w t
  assume "hasInstance w \<and> heapOk w \<and> listenersOk w"
  then show "hasInstance (w\<lparr> trace := t \<rparr>) \<and> heapOk (w\<lparr> trace := t \<rparr>)
      \<and> listenersOk (w\<lparr> trace := t \<rparr>)"
    by (simp add: heapOk_def listenersOk_def)
next
  fix i b w
  assume "hasInstance w \<and> heapOk w \<and> listenersOk w"
  then show "hasInstance (setHasFired i b w) \<and> heapOk (setHasFired i b w)
      \<and> listenersOk (setHasFired i b w)"
    by (simp add: heapOk_def listenersOk_def)
qed

lemma partitionOk_perform:
  assumes "hasDocument E" and "partitionOk w"
  shows "partitionOk (perform E c w)"
proof (cases "hasInstance w")
  case True
  with assms(2) have p: "hasInstance w \<and> heapOk w \<and> listenersOk w"
    by (simp add: partitionOk_def)
  show ?thesis
  proof (cases c)
    case GetInstance
    then show ?thesis using assms(2) True by (simp add: getInstance_def)
  next
    case ResetInstance
    then show ?thesis
      using True destroy_attached [OF assms(1), of w] p
      by (simp add: resetInstance_def partitionOk_def heapOk_def listenersOk_def instanceOk_def)
  next
    case (CallRegister hk cb opts)
    then show ?thesis
      using True p register_partition [OF assms(1), of w hk cb opts]
      by (simp add: getInstance_def partitionOk_def instanceOk_def)
  next
    case (CallUnregister i)
    then show ?thesis
      using True p unregister_partition [OF assms(1), of w i]
      by (simp add: partitionOk_def instanceOk_def)
  next
    case (Dispatch fuel tg kind event)
    then show ?thesis
      using partition_keeps_instance [OF assms(1) p, of fuel tg kind event]
      by (simp add: partitionOk_def instanceOk_def)
  qed
next
  case False
  with assms(2) have e: "registrations w = []" "targetRegistrations w = []"
      "targetListeners w = []" "attached w = []"
    by (simp_all add: partitionOk_def instanceOk_def listenersOk_def)
  let ?w = "getInstance E w"
  have g: "hasInstance ?w \<and> heapOk ?w \<and> listenersOk ?w"
    using e by (simp add: getInstance_def heapOk_def listenersOk_def)
  show ?thesis
  proof (cases c)
    case GetInstance
    then show ?thesis using g by (simp add: partitionOk_def instanceOk_def)
  next
    case ResetInstance
    then show ?thesis using False assms(2) by (simp add: resetInstance_def)
  next
    case (CallRegister hk cb opts)
    then show ?thesis
      using g register_partition [OF assms(1), of ?w hk cb opts]
      by (simp add: partitionOk_def instanceOk_def)
  next
    case (CallUnregister i)
    then show ?thesis using e assms(2) by (simp add: unregister_def)
  next
    case (Dispatch fuel tg kind event)
    then show ?thesis using e assms(2) by (simp add: dispatchEvent_def)
  qed
qed

lemma partitionOk_run:
  assumes "hasDocument E"
  shows "partitionOk w \<Longrightarrow> partitionOk (run E calls w)"
  unfolding run_def
  by (induction calls arbitrary: w) (simp_all add: partitionOk_perform [OF assms])

lemma partitionOk_initial: "partitionOk initialWorld"
  by (simp add: partitionOk_def heapOk_def listenersOk_def instanceOk_def initialWorld_def)

lemma partition_listeners:
  assumes "partitionOk w"
  shows "hasListenerPair w tg = (registrationSet w tg \<noteq> [])"
    and "hasNoListener w tg = (registrationSet w tg = [])"
proof -
  from assms have h: "heapOk w" and l: "listenersOk w"
    by (simp_all add: partitionOk_def)
  have cnt: "count_list (attached w) (tg, k) = (if tg \<in> set (targetListeners w) then 1 else 0)"
    for k
    using l by (simp add: listenersOk_def count_listenerPairs)
  have "(registrationSet w tg \<noteq> []) = (tg \<in> set (targetListeners w))"
  proof (cases "map_of (targetRegistrations w) tg")
    case None
    then have "tg \<notin> fst ` set (targetRegistrations w)"
      by (simp add: map_of_eq_None_iff)
    with None l show ?thesis
      by (simp add: registrationSet_def listenersOk_def)
  next
    case (Some a)
    then have mem: "(tg, a) \<in> set (targetRegistrations w)"
      by (rule map_of_SomeD)
    with h l have "a < length (setObjects w)" "liveIds (setObjects w ! a) \<noteq> []"
      by (auto simp: heapOk_def listenersOk_def list_all_iff)
    moreover from mem l have "tg \<in> set (targetListeners w)"
      by (force simp: listenersOk_def)
    ultimately show ?thesis
      using Some by (simp add: registrationSet_def setAt_def)
  qed
  then show "hasListenerPair w tg = (registrationSet w tg \<noteq> [])"
    and "hasNoListener w tg = (registrationSet w tg = [])"
    by (auto simp: hasListenerPair_def hasNoListener_def cnt)
qed

section \<open>Where there is no document\<close>









section \<open>A pass over a scope\<close>






section \<open>A pass walks the set object\<close>

lemma grownFrom_refl [simp]: "grownFrom es es"
  by (simp add: grownFrom_def)




lemma grownFrom_Nil [simp]: "grownFrom [] es"
  by (simp add: grownFrom_def)


lemma setAt_setHasFired [simp]: "setAt (setHasFired j b v) a = setAt v a"
  by (simp add: setAt_def)












text \<open>
  The pass stays on the object it began on. When the callback of \<^verbatim>\<open>hotkey_1\<close> unregisters
  its own registration, the last of the document, the manager drops the set of the
  document; the registration the callback makes next goes into a new set, which the pass
  does not walk: \<^verbatim>\<open>hotkey_2\<close> is in the registration set of the document after the pass and
  was not visited.
\<close>

lemma pass_stays_on_its_set_object:
  "registrationSet selfReplacing Document = [''hotkey_1'']
   \<and> fst (processTargetEvent 3 page (keyEvent ''s'' True Document Document) Document Keydown
        selfReplacing)
   \<and> fst (snd (processTargetEvent 3 page (keyEvent ''s'' True Document Document) Document Keydown
        selfReplacing)) = [''hotkey_1'']
   \<and> registrationSet (snd (snd (processTargetEvent 3 page (keyEvent ''s'' True Document Document)
        Document Keydown selfReplacing))) Document = [''hotkey_2'']"
  by code_simp

section \<open>The registration sets track the registrations\<close>

text \<open>
  The registration set of a scope and the registrations bound to that scope are kept in
  step by \<^verbatim>\<open>register\<close> and \<^verbatim>\<open>unregister\<close>: the set holds the ids of the registrations whose
  target is the scope, each once, and nothing else.
\<close>

lemma liveIds_setAdd:
  "liveIds (setAdd i es) = (if i \<in> set (liveIds es) then liveIds es else liveIds es @ [i])"
  by (simp add: setAdd_def set_liveIds)

lemma liveIds_setDelete: "liveIds (setDelete i es) = removeAll i (liveIds es)"
proof (induction es)
  case Nil
  show ?case by (simp add: setDelete_def)
next
  case (Cons e es)
  then show ?case by (cases e) (auto simp: setDelete_def)
qed

lemma heapOk_entry:
  assumes "heapOk w" and "(tg, a) \<in> set (targetRegistrations w)"
  shows "map_of (targetRegistrations w) tg = Some a" and "a < length (setObjects w)"
  using assms by (auto simp: heapOk_def list_all_iff)

lemma heapOk_same_address:
  assumes "heapOk w" and "(t, a) \<in> set (targetRegistrations w)"
    and "(t', a) \<in> set (targetRegistrations w)"
  shows "t = t'"
proof -
  from assms(1) have "inj_on snd (set (targetRegistrations w))"
    by (simp add: heapOk_def distinct_map)
  with assms(2,3) have "(t, a) = (t', a)"
    by (metis inj_onD snd_conv)
  then show ?thesis by simp
qed

lemma in_registrationSet:
  assumes "heapOk w"
  shows "j \<in> set (registrationSet w t)
    \<longleftrightarrow> (\<exists>a. (t, a) \<in> set (targetRegistrations w) \<and> j \<in> set (liveIds (setAt w a)))"
proof (cases "map_of (targetRegistrations w) t")
  case None
  then have "(t, a) \<notin> set (targetRegistrations w)" for a
    by (metis map_of_eq_None_iff fst_conv image_eqI)
  with None show ?thesis by (simp add: registrationSet_def)
next
  case (Some a)
  then have "(t, b) \<in> set (targetRegistrations w) \<longleftrightarrow> b = a" for b
    using heapOk_entry(1) [OF assms, of t b] map_of_SomeD [OF Some] by auto
  with Some show ?thesis by (simp add: registrationSet_def)
qed

lemma tracked_iff:
  assumes "heapOk w"
  shows "tracked w \<longleftrightarrow>
     distinct (map fst (registrations w))
     \<and> (\<forall>i r. (i, r) \<in> set (registrations w) \<longrightarrow>
          (\<exists>a. (target r, a) \<in> set (targetRegistrations w) \<and> i \<in> set (liveIds (setAt w a))))
     \<and> (\<forall>tg a. (tg, a) \<in> set (targetRegistrations w) \<longrightarrow>
          distinct (liveIds (setAt w a))
          \<and> (\<forall>i \<in> set (liveIds (setAt w a)).
                \<exists>r. (i, r) \<in> set (registrations w) \<and> target r = tg))"
proof (cases "distinct (map fst (registrations w))")
  case False
  then show ?thesis by (simp add: tracked_def)
next
  case True
  then have m: "map_option target (map_of (registrations w) i) = Some tg
      \<longleftrightarrow> (\<exists>r. (i, r) \<in> set (registrations w) \<and> target r = tg)" for i tg
    unfolding map_of_eq_Some_iff [OF True, symmetric]
    by (cases "map_of (registrations w) i") auto
  show ?thesis
    unfolding tracked_def list_all_iff m in_registrationSet [OF assms]
    by (simp add: True Ball_def)
qed

lemma tracked_cong:
  "registrations w' = registrations w \<Longrightarrow> targetRegistrations w' = targetRegistrations w
    \<Longrightarrow> setObjects w' = setObjects w \<Longrightarrow> tracked w' = tracked w"
  by (simp add: tracked_def registrationSet_def setAt_def)

lemma track_tracked:
  assumes h: "heapOk w" and t: "tracked w" and fresh: "i \<notin> fst ` set (registrations w)"
    and tg: "target r = tg"
  shows "tracked (trackRegistration tg i (w\<lparr> registrations := registrations w @ [(i, r)] \<rparr>))"
proof -
  let ?w2 = "w\<lparr> registrations := registrations w @ [(i, r)] \<rparr>"
  let ?w' = "trackRegistration tg i ?w2"
  have h2: "heapOk ?w2"
    using h by (simp add: heapOk_def)
  have h': "heapOk ?w'"
    using h2 by (rule track_heapOk)
  from t have d: "distinct (map fst (registrations w))"
    and in_set: "\<And>j r'. (j, r') \<in> set (registrations w) \<Longrightarrow>
        \<exists>a. (target r', a) \<in> set (targetRegistrations w) \<and> j \<in> set (liveIds (setAt w a))"
    and d_set: "\<And>t a. (t, a) \<in> set (targetRegistrations w) \<Longrightarrow> distinct (liveIds (setAt w a))"
    and of_set: "\<And>t a j. (t, a) \<in> set (targetRegistrations w) \<Longrightarrow> j \<in> set (liveIds (setAt w a))
        \<Longrightarrow> \<exists>r'. (j, r') \<in> set (registrations w) \<and> target r' = t"
    unfolding tracked_iff [OF h] by blast+
  have regs: "registrations ?w' = registrations w @ [(i, r)]"
    by simp
  show ?thesis
  proof (cases "map_of (targetRegistrations w) tg")
    case None
    have tr: "targetRegistrations ?w' = targetRegistrations w @ [(tg, length (setObjects w))]"
      and so: "setObjects ?w' = setObjects w @ [[Some i]]"
      using None by (simp_all add: track_None)
    have old: "setAt ?w' a = setAt w a" if "(t, a) \<in> set (targetRegistrations w)" for t a
      using heapOk_entry(2) [OF h that] by (simp add: setAt_def so nth_append)
    have new: "setAt ?w' (length (setObjects w)) = [Some i]"
      by (simp add: setAt_def so)
    have no: "(tg, a) \<notin> set (targetRegistrations w)" for a
      using None by (metis map_of_eq_None_iff fst_conv image_eqI)
    show ?thesis
      unfolding tracked_iff [OF h'] regs tr
    proof (intro conjI allI impI)
      show "distinct (map fst (registrations w @ [(i, r)]))"
        using d fresh by simp
    next
      fix j r'
      assume "(j, r') \<in> set (registrations w @ [(i, r)])"
      then consider "(j, r') \<in> set (registrations w)" | "j = i" "r' = r"
        by auto
      then show "\<exists>a. (target r', a) \<in> set (targetRegistrations w @ [(tg, length (setObjects w))])
          \<and> j \<in> set (liveIds (setAt ?w' a))"
      proof cases
        case 1
        from in_set [OF 1] obtain a where "(target r', a) \<in> set (targetRegistrations w)"
            "j \<in> set (liveIds (setAt w a))"
          by blast
        then show ?thesis
          using old by (intro exI [of _ a]) simp
      next
        case 2
        then show ?thesis
          using tg new by (intro exI [of _ "length (setObjects w)"]) simp
      qed
    next
      fix t a
      assume "(t, a) \<in> set (targetRegistrations w @ [(tg, length (setObjects w))])"
      then consider "(t, a) \<in> set (targetRegistrations w)" | "t = tg" "a = length (setObjects w)"
        by auto
      then show "distinct (liveIds (setAt ?w' a))"
        using old d_set new by cases simp_all
    next
      fix t a
      assume "(t, a) \<in> set (targetRegistrations w @ [(tg, length (setObjects w))])"
      then consider "(t, a) \<in> set (targetRegistrations w)" | "t = tg" "a = length (setObjects w)"
        by auto
      then show "\<forall>j \<in> set (liveIds (setAt ?w' a)).
          \<exists>r'. (j, r') \<in> set (registrations w @ [(i, r)]) \<and> target r' = t"
      proof cases
        case 1
        then show ?thesis
          using old [OF 1] of_set [OF 1] by auto
      next
        case 2
        then show ?thesis
          using new tg by auto
      qed
    qed
  next
    case (Some a)
    have tr: "targetRegistrations ?w' = targetRegistrations w"
      and so: "setObjects ?w' = (setObjects w)[a := setAdd i (setAt w a)]"
      using Some by (simp_all add: track_Some)
    have mem: "(tg, a) \<in> set (targetRegistrations w)"
      using Some by (rule map_of_SomeD)
    have a: "a < length (setObjects w)"
      using heapOk_entry(2) [OF h mem] .
    have at: "setAt ?w' b = (if b = a then setAdd i (setAt w a) else setAt w b)" for b
      using a by (simp add: setAt_def so)
    have there: "i \<notin> set (liveIds (setAt w a))"
      using of_set [OF mem] fresh by force
    show ?thesis
      unfolding tracked_iff [OF h'] regs tr
    proof (intro conjI allI impI)
      show "distinct (map fst (registrations w @ [(i, r)]))"
        using d fresh by simp
    next
      fix j r'
      assume "(j, r') \<in> set (registrations w @ [(i, r)])"
      then consider "(j, r') \<in> set (registrations w)" | "j = i" "r' = r"
        by auto
      then show "\<exists>b. (target r', b) \<in> set (targetRegistrations w)
          \<and> j \<in> set (liveIds (setAt ?w' b))"
      proof cases
        case 1
        from in_set [OF 1] obtain b where "(target r', b) \<in> set (targetRegistrations w)"
            "j \<in> set (liveIds (setAt w b))"
          by blast
        then show ?thesis
          by (intro exI [of _ b]) (auto simp: at liveIds_setAdd)
      next
        case 2
        then show ?thesis
          using tg mem by (intro exI [of _ a]) (auto simp: at liveIds_setAdd)
      qed
    next
      fix t b
      assume "(t, b) \<in> set (targetRegistrations w)"
      then show "distinct (liveIds (setAt ?w' b))"
        using d_set [OF mem] d_set [of t b] by (simp add: at liveIds_setAdd)
    next
      fix t b
      assume m: "(t, b) \<in> set (targetRegistrations w)"
      show "\<forall>j \<in> set (liveIds (setAt ?w' b)).
          \<exists>r'. (j, r') \<in> set (registrations w @ [(i, r)]) \<and> target r' = t"
      proof (cases "b = a")
        case True
        with m mem have "t = tg"
          using heapOk_same_address [OF h] by blast
        then show ?thesis
          using True of_set [OF mem] tg by (auto simp: at liveIds_setAdd)
      next
        case False
        then show ?thesis
          using of_set [OF m] by (auto simp: at)
      qed
    qed
  qed
qed

lemma track_cong:
  assumes "targetRegistrations w' = targetRegistrations w" and "setObjects w' = setObjects w"
  shows "targetRegistrations (trackRegistration tg i w') = targetRegistrations (trackRegistration tg i w)"
    and "setObjects (trackRegistration tg i w') = setObjects (trackRegistration tg i w)"
  using assms by (simp_all add: trackRegistration_def Let_def setAt_def split: option.splits)

lemma tracked_register:
  assumes "heapOk w" and "idsBounded w" and "tracked w"
  shows "tracked (fst (register E hk cb opts w))"
proof (cases rule: register_cases [of E hk opts w cb])
  case (Throws err)
  have "tracked (w\<lparr> registrationIdCounter := Suc (registrationIdCounter w) \<rparr>) = tracked w"
    by (rule tracked_cong) simp_all
  then show ?thesis
    using assms(3) by (simp add: Throws)
next
  case (Registers parsed)
  let ?tg = "resolvedTarget E opts (Suc (registrationIdCounter w))"
  let ?i = "hotkeyId (Suc (registrationIdCounter w))"
  let ?r = "newRegistration ?i hk parsed cb opts (resolvedPlatform opts w) ?tg"
  let ?w2 = "w\<lparr> registrationIdCounter := Suc (registrationIdCounter w),
       registrations := AList.update ?i ?r (registrations w),
       assigned := assigned w @ [?i] \<rparr>"
  let ?v = "w\<lparr> registrations := registrations w @ [(?i, ?r)] \<rparr>"
  have fresh: "?i \<notin> fst ` set (registrations w)"
    using assms(2) by (rule fresh_id)
  have "tracked (trackRegistration ?tg ?i ?v)"
    using assms(1,3) fresh by (rule track_tracked) (simp add: newRegistration_def)
  moreover have "tracked (trackRegistration ?tg ?i ?w2) = tracked (trackRegistration ?tg ?i ?v)"
  proof (rule tracked_cong)
    show "registrations (trackRegistration ?tg ?i ?w2) = registrations (trackRegistration ?tg ?i ?v)"
      by (simp add: update_fresh [OF fresh])
    show "targetRegistrations (trackRegistration ?tg ?i ?w2)
        = targetRegistrations (trackRegistration ?tg ?i ?v)"
      by (rule track_cong) simp_all
    show "setObjects (trackRegistration ?tg ?i ?w2) = setObjects (trackRegistration ?tg ?i ?v)"
      by (rule track_cong) simp_all
  qed
  moreover have "tracked (ensureListenersForTarget E ?tg (trackRegistration ?tg ?i ?w2))
      = tracked (trackRegistration ?tg ?i ?w2)"
    by (rule tracked_cong) simp_all
  ultimately show ?thesis
    by (simp add: Registers)
qed

lemma set_delete: "set (AList.delete k xs) = {p \<in> set xs. fst p \<noteq> k}"
  by (auto simp: AList.delete_eq)

lemma shrink_tracked:
  assumes h: "heapOk w" and t: "tracked w"
    and r: "map_of (registrations w) i = Some r"
    and a: "map_of (targetRegistrations w) (target r) = Some a"
  shows "heapOk (w\<lparr> registrations := AList.delete i (registrations w),
        setObjects := (setObjects w)[a := setDelete i (setAt w a)] \<rparr>)"
    and "tracked (w\<lparr> registrations := AList.delete i (registrations w),
        setObjects := (setObjects w)[a := setDelete i (setAt w a)] \<rparr>)"
proof -
  let ?w' = "w\<lparr> registrations := AList.delete i (registrations w),
        setObjects := (setObjects w)[a := setDelete i (setAt w a)] \<rparr>"
  show h': "heapOk ?w'"
    using h by (simp add: heapOk_def)
  from t have d: "distinct (map fst (registrations w))"
    and in_set: "\<And>j r'. (j, r') \<in> set (registrations w) \<Longrightarrow>
        \<exists>a. (target r', a) \<in> set (targetRegistrations w) \<and> j \<in> set (liveIds (setAt w a))"
    and d_set: "\<And>t a. (t, a) \<in> set (targetRegistrations w) \<Longrightarrow> distinct (liveIds (setAt w a))"
    and of_set: "\<And>t a j. (t, a) \<in> set (targetRegistrations w) \<Longrightarrow> j \<in> set (liveIds (setAt w a))
        \<Longrightarrow> \<exists>r'. (j, r') \<in> set (registrations w) \<and> target r' = t"
    unfolding tracked_iff [OF h] by blast+
  have mem: "(target r, a) \<in> set (targetRegistrations w)"
    using a by (rule map_of_SomeD)
  have lt: "a < length (setObjects w)"
    using heapOk_entry(2) [OF h mem] .
  have at: "setAt ?w' b = (if b = a then setDelete i (setAt w a) else setAt w b)" for b
    using lt by (simp add: setAt_def)
  have only: "r' = r" if "(i, r') \<in> set (registrations w)" for r'
    using that r d by (simp add: map_of_eq_Some_iff)
  have elsewhere: "i \<notin> set (liveIds (setAt w b))"
    if "(t, b) \<in> set (targetRegistrations w)" "b \<noteq> a" for t b
  proof
    assume "i \<in> set (liveIds (setAt w b))"
    from of_set [OF that(1) this] only have "target r = t"
      by blast
    with that(1) have "map_of (targetRegistrations w) (target r) = Some b"
      using heapOk_entry(1) [OF h] by blast
    with a that(2) show False by simp
  qed
  show "tracked ?w'"
    unfolding tracked_iff [OF h']
  proof (intro conjI allI impI)
    show "distinct (map fst (registrations ?w'))"
      using d by (simp add: distinct_delete)
  next
    fix j r'
    assume "(j, r') \<in> set (registrations ?w')"
    then have m: "(j, r') \<in> set (registrations w)" and ne: "j \<noteq> i"
      by (simp_all add: set_delete)
    from in_set [OF m] obtain b where "(target r', b) \<in> set (targetRegistrations w)"
        "j \<in> set (liveIds (setAt w b))"
      by blast
    then show "\<exists>b. (target r', b) \<in> set (targetRegistrations ?w')
        \<and> j \<in> set (liveIds (setAt ?w' b))"
      using ne by (intro exI [of _ b]) (auto simp: at liveIds_setDelete)
  next
    fix t b
    assume "(t, b) \<in> set (targetRegistrations ?w')"
    then show "distinct (liveIds (setAt ?w' b))"
      using d_set [OF mem] d_set [of t b] by (simp add: at liveIds_setDelete distinct_removeAll)
  next
    fix t b
    assume "(t, b) \<in> set (targetRegistrations ?w')"
    then have m: "(t, b) \<in> set (targetRegistrations w)"
      by simp
    show "\<forall>j \<in> set (liveIds (setAt ?w' b)).
        \<exists>r'. (j, r') \<in> set (registrations ?w') \<and> target r' = t"
    proof
      fix j
      assume j: "j \<in> set (liveIds (setAt ?w' b))"
      then have old: "j \<in> set (liveIds (setAt w b))" and ne: "j \<noteq> i"
        using elsewhere [OF m] by (auto simp: at liveIds_setDelete split: if_splits)
      from of_set [OF m old] ne show "\<exists>r'. (j, r') \<in> set (registrations ?w') \<and> target r' = t"
        by (auto simp: set_delete)
    qed
  qed
qed

lemma drop_tracked:
  assumes h: "heapOk w" and t: "tracked w"
    and a: "map_of (targetRegistrations w) tg = Some a"
    and e: "liveIds (setAt w a) = []"
  shows "tracked (w\<lparr> targetRegistrations := AList.delete tg (targetRegistrations w) \<rparr>)"
proof -
  let ?w' = "w\<lparr> targetRegistrations := AList.delete tg (targetRegistrations w) \<rparr>"
  have h': "heapOk ?w'"
    using h delete_subset [of tg "targetRegistrations w"]
    by (auto simp: heapOk_def list_all_iff distinct_delete distinct_snd_delete)
  from t have d: "distinct (map fst (registrations w))"
    and in_set: "\<And>j r'. (j, r') \<in> set (registrations w) \<Longrightarrow>
        \<exists>a. (target r', a) \<in> set (targetRegistrations w) \<and> j \<in> set (liveIds (setAt w a))"
    and d_set: "\<And>t a. (t, a) \<in> set (targetRegistrations w) \<Longrightarrow> distinct (liveIds (setAt w a))"
    and of_set: "\<And>t a j. (t, a) \<in> set (targetRegistrations w) \<Longrightarrow> j \<in> set (liveIds (setAt w a))
        \<Longrightarrow> \<exists>r'. (j, r') \<in> set (registrations w) \<and> target r' = t"
    unfolding tracked_iff [OF h] by blast+
  show ?thesis
    unfolding tracked_iff [OF h']
  proof (intro conjI allI impI)
    show "distinct (map fst (registrations ?w'))"
      using d by simp
  next
    fix j r'
    assume "(j, r') \<in> set (registrations ?w')"
    then have "(j, r') \<in> set (registrations w)"
      by simp
    from in_set [OF this] obtain b where b: "(target r', b) \<in> set (targetRegistrations w)"
        "j \<in> set (liveIds (setAt w b))"
      by blast
    have "target r' \<noteq> tg"
    proof
      assume "target r' = tg"
      with b(1) a have "b = a"
        using heapOk_entry(1) [OF h] by fastforce
      with b(2) e show False by simp
    qed
    with b show "\<exists>b. (target r', b) \<in> set (targetRegistrations ?w')
        \<and> j \<in> set (liveIds (setAt ?w' b))"
      by (intro exI [of _ b]) (simp add: set_delete)
  next
    fix t b
    assume "(t, b) \<in> set (targetRegistrations ?w')"
    then show "distinct (liveIds (setAt ?w' b))"
      using d_set [of t b] by (simp add: set_delete)
  next
    fix t b
    assume "(t, b) \<in> set (targetRegistrations ?w')"
    then show "\<forall>j \<in> set (liveIds (setAt ?w' b)).
        \<exists>r'. (j, r') \<in> set (registrations ?w') \<and> target r' = t"
      using of_set [of t b] by (simp add: set_delete)
  qed
qed

lemma tracked_unregister:
  assumes h: "heapOk w" and t: "tracked w"
  shows "tracked (unregister E i w)"
proof (cases rule: unregister_cases [of w i E])
  case Absent
  then show ?thesis using t by simp
next
  case (Untracked r)
  from Untracked(1) have "(i, r) \<in> set (registrations w)"
    by (rule map_of_SomeD)
  with t obtain a where "(target r, a) \<in> set (targetRegistrations w)"
    unfolding tracked_iff [OF h] by blast
  with Untracked(2) show ?thesis
    by (metis map_of_eq_None_iff fst_conv image_eqI)
next
  case (Shrinks r a)
  then show ?thesis
    using shrink_tracked(2) [OF h t Shrinks(1,2)] by simp
next
  case (Empties r a)
  let ?w2 = "w\<lparr> registrations := AList.delete i (registrations w),
        setObjects := (setObjects w)[a := setDelete i (setAt w a)] \<rparr>"
  note s = shrink_tracked [OF h t Empties(1,2)]
  have lt: "a < length (setObjects w)"
    using heapOk_entry(2) [OF h map_of_SomeD [OF Empties(2)]] .
  have e: "liveIds (setAt ?w2 a) = []"
    using Empties(3) [OF lt] lt by (simp add: setAt_def)
  have "tracked (?w2\<lparr> targetRegistrations := AList.delete (target r) (targetRegistrations ?w2) \<rparr>)"
    using s _ e by (rule drop_tracked) (simp add: Empties(2))
  moreover have "tracked (?w2\<lparr> attached := x, targetListeners := y, targetRegistrations := z \<rparr>)
      = tracked (?w2\<lparr> targetRegistrations := z \<rparr>)" for x y z
    by (rule tracked_cong) simp_all
  ultimately have "tracked (removeListenersForTarget E (target r) ?w2)"
    using s(2) by (simp add: removeListenersForTarget_def)
  then show ?thesis
    by (simp add: Empties(4))
qed

lemma set_map_entry:
  "set (AList.map_entry k f xs) \<subseteq> set xs \<union> {(k, f v) |v. (k, v) \<in> set xs}"
  by (induction xs) auto

lemma targets_map_entry:
  "map (\<lambda>p. (fst p, target (snd p))) (AList.map_entry k (\<lambda>r. r\<lparr> hasFired := b \<rparr>) xs)
    = map (\<lambda>p. (fst p, target (snd p))) xs"
  by (induction xs) auto

lemma idsBounded_setHasFired: "idsBounded w \<Longrightarrow> idsBounded (setHasFired i b w)"
  using set_map_entry [of i "\<lambda>r. r\<lparr> hasFired := b \<rparr>" "registrations w"]
  unfolding idsBounded_def setHasFired_def by fastforce

lemma tracked_setHasFired:
  assumes h: "heapOk w" and t: "tracked w"
  shows "tracked (setHasFired i b w)"
proof -
  have h': "heapOk (setHasFired i b w)"
    using h by (simp add: heapOk_cong [of "setHasFired i b w" w])
  have at: "setAt (setHasFired i b w) a = setAt w a" for a
    by (simp add: setAt_def)
  have pr: "(\<exists>r. (j, r) \<in> set xs \<and> target r = tg)
      \<longleftrightarrow> (j, tg) \<in> set (map (\<lambda>p. (fst p, target (snd p))) xs)"
    for j tg and xs :: "(regId \<times> HotkeyRegistration) list"
    by force
  have there: "(\<exists>r. (j, r) \<in> set (registrations (setHasFired i b w)) \<and> target r = tg)
      \<longleftrightarrow> (\<exists>r. (j, r) \<in> set (registrations w) \<and> target r = tg)" for j tg
    unfolding pr by (simp add: setHasFired_def targets_map_entry)
  have before: "\<exists>r'. (j, r') \<in> set (registrations w) \<and> target r' = target r"
    if "(j, r) \<in> set (registrations (setHasFired i b w))" for j r
    using that there [of j "target r"] by blast
  from t show ?thesis
    unfolding tracked_iff [OF h] tracked_iff [OF h'] at there
    using before by (simp add: setHasFired_def) metis
qed

lemma kept_by_dispatch:
  assumes d: "hasDocument E"
    and "heapOk w \<and> listenersOk w \<and> idsBounded w \<and> tracked w"
  shows "idsBounded (snd (snd (dispatchEvent fuel E tg kind event w)))
    \<and> tracked (snd (snd (dispatchEvent fuel E tg kind event w)))"
proof -
  let ?P = "\<lambda>w. heapOk w \<and> listenersOk w \<and> idsBounded w \<and> tracked w"
  have "?P (snd (snd (dispatchEvent fuel E tg kind event w)))"
    using _ _ _ _ assms(2)
  proof (rule dispatchEvent_keeps [where P = ?P])
    fix hk cb opts w
    assume "?P w"
    then show "?P (fst (register E hk cb opts w))"
      using register_partition [OF d, of w hk cb opts]
      by (simp add: idsBounded_register tracked_register)
  next
    fix i w
    assume "?P w"
    then show "?P (unregister E i w)"
      using unregister_partition [OF d, of w i]
      by (simp add: idsBounded_unregister tracked_unregister)
  next
    fix w t
    assume p: "?P w"
    have "tracked (w\<lparr> trace := t \<rparr>) = tracked w"
      by (rule tracked_cong) simp_all
    with p show "?P (w\<lparr> trace := t \<rparr>)"
      by (simp add: heapOk_def listenersOk_def idsBounded_def)
  next
    fix i b w
    assume "?P w"
    then show "?P (setHasFired i b w)"
      by (simp add: heapOk_cong [of "setHasFired i b w" w] listenersOk_cong [of "setHasFired i b w" w]
            idsBounded_setHasFired tracked_setHasFired)
  qed
  then show ?thesis by simp
qed

lemma tracked_empty:
  "registrations w = [] \<Longrightarrow> targetRegistrations w = [] \<Longrightarrow> idsBounded w \<and> tracked w"
  by (simp add: idsBounded_def tracked_def)

lemma tracked_perform:
  assumes d: "hasDocument E" and p: "partitionOk w" and b: "idsBounded w" and t: "tracked w"
  shows "idsBounded (perform E c w) \<and> tracked (perform E c w)"
proof -
  have g: "idsBounded (getInstance E w) \<and> tracked (getInstance E w)"
  proof (cases "hasInstance w")
    case True
    then show ?thesis
      using b t by (simp add: getInstance_def)
  next
    case False
    then show ?thesis
      by (intro tracked_empty) (simp_all add: getInstance_def)
  qed
  show ?thesis
  proof (cases c)
  case GetInstance
  then show ?thesis
    using g by simp
next
  case ResetInstance
  have "idsBounded (resetInstance E w) \<and> tracked (resetInstance E w)"
  proof (cases "hasInstance w")
    case True
    then show ?thesis
      by (intro tracked_empty) (simp_all add: resetInstance_def destroy_def)
  next
    case False
    then show ?thesis
      using b t by (simp add: resetInstance_def)
  qed
  then show ?thesis
    by (simp add: ResetInstance)
next
  case (CallRegister hk cb opts)
  let ?w = "getInstance E w"
  have "partitionOk ?w"
    using partitionOk_perform [OF d p, of GetInstance] by simp
  then have "heapOk ?w"
    by (simp add: partitionOk_def)
  then show ?thesis
    using g
    by (simp add: CallRegister idsBounded_register tracked_register)
next
  case (CallUnregister i)
  from p have "heapOk w"
    by (simp add: partitionOk_def)
  then show ?thesis
    using b t by (simp add: CallUnregister idsBounded_unregister tracked_unregister)
next
  case (Dispatch fuel tg kind event)
  from p b t have "heapOk w \<and> listenersOk w \<and> idsBounded w \<and> tracked w"
    by (simp add: partitionOk_def)
  from kept_by_dispatch [OF d this] show ?thesis
    by (simp add: Dispatch)
  qed
qed

lemma tracked_run:
  assumes "hasDocument E"
  shows "partitionOk w \<and> idsBounded w \<and> tracked w \<Longrightarrow>
    partitionOk (run E calls w) \<and> idsBounded (run E calls w) \<and> tracked (run E calls w)"
  unfolding run_def
proof (induction calls arbitrary: w)
  case Nil
  then show ?case by simp
next
  case (Cons c calls)
  from Cons.prems have "partitionOk (perform E c w) \<and> idsBounded (perform E c w)
      \<and> tracked (perform E c w)"
    using partitionOk_perform [OF assms, of w c] tracked_perform [OF assms, of w c] by simp
  from Cons.IH [OF this] show ?case by simp
qed

lemma registrationSet_boundTo:
  assumes "heapOk w" and "tracked w"
  shows "set (registrationSet w tg) = set (boundTo w tg)"
    and "distinct (registrationSet w tg)"
proof -
  from assms(2) have in_set: "\<And>j r'. (j, r') \<in> set (registrations w) \<Longrightarrow>
        \<exists>a. (target r', a) \<in> set (targetRegistrations w) \<and> j \<in> set (liveIds (setAt w a))"
    and d_set: "\<And>t a. (t, a) \<in> set (targetRegistrations w) \<Longrightarrow> distinct (liveIds (setAt w a))"
    and of_set: "\<And>t a j. (t, a) \<in> set (targetRegistrations w) \<Longrightarrow> j \<in> set (liveIds (setAt w a))
        \<Longrightarrow> \<exists>r'. (j, r') \<in> set (registrations w) \<and> target r' = t"
    unfolding tracked_iff [OF assms(1)] by blast+
  have "j \<in> set (boundTo w tg) \<longleftrightarrow> (\<exists>r. (j, r) \<in> set (registrations w) \<and> target r = tg)" for j
    by (force simp: boundTo_def)
  then show "set (registrationSet w tg) = set (boundTo w tg)"
    using in_set of_set unfolding set_eq_iff in_registrationSet [OF assms(1)] by blast
  show "distinct (registrationSet w tg)"
  proof (cases "map_of (targetRegistrations w) tg")
    case None
    then show ?thesis by (simp add: registrationSet_def)
  next
    case (Some a)
    from d_set [OF map_of_SomeD [OF Some]] Some show ?thesis
      by (simp add: registrationSet_def)
  qed
qed

lemma registration_sets_track_registrations:
  assumes "hasDocument E"
  shows "set (registrationSet (run E calls initialWorld) tg) = set (boundTo (run E calls initialWorld) tg)"
    and "distinct (registrationSet (run E calls initialWorld) tg)"
proof -
  have "partitionOk initialWorld \<and> idsBounded initialWorld \<and> tracked initialWorld"
    using tracked_empty [of initialWorld] by (simp add: partitionOk_initial) (simp add: initialWorld_def)
  from tracked_run [OF assms this, of calls]
  have "heapOk (run E calls initialWorld)" "tracked (run E calls initialWorld)"
    by (simp_all add: partitionOk_def)
  from registrationSet_boundTo [OF this]
  show "set (registrationSet (run E calls initialWorld) tg) = set (boundTo (run E calls initialWorld) tg)"
    and "distinct (registrationSet (run E calls initialWorld) tg)"
    by simp_all
qed

text \<open>So, where there is a document, a scope holds its listener pair exactly when some
  registration is bound to it.\<close>

lemma listeners_iff_bound:
  assumes "hasDocument E"
  shows "hasListenerPair (run E calls initialWorld) tg = (boundTo (run E calls initialWorld) tg \<noteq> [])"
  using partition_listeners(1) [OF partitionOk_run [OF assms partitionOk_initial], of calls tg]
    registration_sets_track_registrations(1) [OF assms, of calls tg]
  by (metis set_empty)

section \<open>Restarting a sequence\<close>

text \<open>
  Claim C8. When the pressed key is not the key the sequence waits for but is its first
  key, the progress becomes 1 and the timeout is started again, and the callback is not
  invoked. The same state is reached when the first key of a sequence of two or more
  keys is pressed right after the timeout has elapsed and reset the progress to 0.
\<close>

theorem first_key_restarts_sequence:
  assumes "orderedKeys s \<noteq> []" and "progressIndex s < length (orderedKeys s)"
    and "sameKey k (orderedKeys s ! 0)"
  shows "(\<not> sameKey k (orderedKeys s ! progressIndex s)
      \<longrightarrow> pressKey k s = (False, s\<lparr> progressIndex := 1, pendingTimeout := timeoutMillis s \<rparr>))
    \<and> (1 < length (orderedKeys s) \<and> pendingTimeout s = Some left \<and> left \<le> d
      \<longrightarrow> pressKey k (elapse d s)
          = (False, s\<lparr> progressIndex := 1, pendingTimeout := timeoutMillis s \<rparr>))"
  using assms by (auto simp: pressKey_def elapse_def)

theorem first_key_restarts_sequence_witness:
  "orderedKeys goInner \<noteq> [] \<and> progressIndex goInner < length (orderedKeys goInner)
   \<and> sameKey ''g'' (orderedKeys goInner ! 0)
   \<and> \<not> sameKey ''g'' (orderedKeys goInner ! progressIndex goInner)
   \<and> pressKey ''g'' goInner = (False, goInner\<lparr> progressIndex := 1, pendingTimeout := Some 500 \<rparr>)
   \<and> pressKey ''g'' (elapse 600 goInner)
       = (False, goInner\<lparr> progressIndex := 1, pendingTimeout := Some 500 \<rparr>)"
proof -
  have h1: "orderedKeys goInner \<noteq> []"
    and h2: "progressIndex goInner < length (orderedKeys goInner)"
    and h3: "sameKey ''g'' (orderedKeys goInner ! 0)"
    and h4: "\<not> sameKey ''g'' (orderedKeys goInner ! progressIndex goInner)"
    and h5: "1 < length (orderedKeys goInner) \<and> pendingTimeout goInner = Some 200 \<and> (200::nat) \<le> 600"
    and h6: "timeoutMillis goInner = Some 500"
    by code_simp+
  from first_key_restarts_sequence [OF h1 h2 h3, of 200 600] h4 h5 h6 h1 h2 h3
  show ?thesis by simp
qed

lemma sequence_scenarios:
  "map_sum id (\<lambda>s. fst (pressKey ''g'' (snd (pressKey ''g'' s))))
      (registerSequence [''G'', ''G''] 1 (Some 500)) = Inr True
   \<and> map_sum id (\<lambda>s. fst (pressKey ''g'' (elapse 600 (snd (pressKey ''g'' s)))))
      (registerSequence [''G'', ''G''] 1 (Some 500)) = Inr False
   \<and> registerSequence [] 1 None = Inl EmptySequence"
  by code_simp

section \<open>Splitting and joining\<close>

lemma splitOn_nonempty [simp]: "splitOn c s \<noteq> []"
  by (induction s) (auto split: list.splits)

lemma splitOn_no_separator: "c \<notin> set s \<Longrightarrow> splitOn c s = [s]"
  by (induction s) auto

lemma splitOn_append: "c \<notin> set p \<Longrightarrow> splitOn c (p @ c # rest) = p # splitOn c rest"
  by (induction p) auto

lemma splitOn_tokens: "t \<in> set (splitOn c s) \<Longrightarrow> c \<notin> set t"
proof (induction s arbitrary: t)
  case Nil
  then show ?case by simp
next
  case (Cons x s)
  then show ?case
    by (cases "splitOn c s") (auto split: if_splits)
qed

lemma splitOn_joinPlus:
  "ts \<noteq> [] \<Longrightarrow> (\<forall>t \<in> set ts. CHR ''+'' \<notin> set t) \<Longrightarrow> splitOn (CHR ''+'') (joinPlus ts) = ts"
proof (induction ts rule: joinPlus.induct)
  case 1
  then show ?case by simp
next
  case (2 p)
  then show ?case by (simp add: splitOn_no_separator)
next
  case (3 p q ps)
  then show ?case by (simp add: splitOn_append)
qed

lemma joinPlus_last: "set k \<subseteq> set (joinPlus (ms @ [k]))"
proof (induction ms)
  case Nil
  then show ?case by simp
next
  case (Cons m ms)
  then show ?case by (cases "ms @ [k]") auto
qed

lemma blank_joinPlus: "\<not> blank k \<Longrightarrow> \<not> blank (joinPlus (ms @ [k]))"
  using joinPlus_last [of k ms] by (auto simp: blank_def list_all_iff)

section \<open>Canonical keys\<close>

lemma length_toLowerCase [simp]: "length (toLowerCase s) = length s"
  by (simp add: toLowerCase_def)

lemma length_toUpperCase [simp]: "length (toUpperCase s) = length s"
  by (simp add: toUpperCase_def)

lemma upperChar_idem [simp]: "upperChar (upperChar c) = upperChar c"
  by (simp add: upperChar_def)

lemma toUpperCase_idem [simp]: "toUpperCase (toUpperCase s) = toUpperCase s"
  by (simp add: toUpperCase_def)

lemma upperChar_plus [simp]:
  "upperChar c = CHR ''+'' \<longleftrightarrow> c = CHR ''+''" "CHR ''+'' = upperChar c \<longleftrightarrow> c = CHR ''+''"
  by (auto simp: upperChar_def)

lemma upperChar_whitespace [simp]: "isWhitespace (upperChar c) \<longleftrightarrow> isWhitespace c"
  by (auto simp: upperChar_def isWhitespace_def)

lemma normalizeKeyName_single: "length k = 1 \<Longrightarrow> normalizeKeyName k = toUpperCase k"
  by (auto simp: normalizeKeyName_def Let_def dest!: arg_cong [where f = length])

lemma modifierOfToken_single: "length k = 1 \<Longrightarrow> modifierOfToken p k = None"
  by (auto simp: modifierOfToken_def Let_def dest!: arg_cong [where f = length])

lemma normalizeKeyName_disj:
  "(normalizeKeyName k = ''Escape'' \<or> normalizeKeyName k = ''Delete''
      \<or> normalizeKeyName k = ''Enter'')
   \<or> (length k = 1 \<and> normalizeKeyName k = toUpperCase k) \<or> normalizeKeyName k = k"
  by (simp add: normalizeKeyName_def Let_def)

lemma normalizeKeyName_cases:
  obtains (Alias) "normalizeKeyName k = ''Escape'' \<or> normalizeKeyName k = ''Delete''
      \<or> normalizeKeyName k = ''Enter''"
  | (Single) "length k = 1" "normalizeKeyName k = toUpperCase k"
  | (Other) "normalizeKeyName k = k"
  using normalizeKeyName_disj [of k] by blast

lemma normalizeKeyName_names [simp]:
  "normalizeKeyName ''Escape'' = ''Escape''" "normalizeKeyName ''Delete'' = ''Delete''"
  "normalizeKeyName ''Enter'' = ''Enter''"
  by code_simp+

lemma modifierOfToken_names [simp]:
  "modifierOfToken p ''Escape'' = None" "modifierOfToken p ''Delete'' = None"
  "modifierOfToken p ''Enter'' = None"
  "modifierOfToken p ''Control'' = Some Control" "modifierOfToken p ''Alt'' = Some Alt"
  "modifierOfToken p ''Shift'' = Some Shift" "modifierOfToken p ''Meta'' = Some Meta"
  by (simp_all add: modifierOfToken_def toLowerCase_def lowerChar_def)

lemma normalizeKeyName_idem: "normalizeKeyName (normalizeKeyName k) = normalizeKeyName k"
proof (cases k rule: normalizeKeyName_cases)
  case Alias
  then show ?thesis by auto
next
  case Single
  then show ?thesis by (simp add: normalizeKeyName_single)
next
  case Other
  then show ?thesis by simp
qed

lemma normalizeKeyName_not_blank: "\<not> blank k \<Longrightarrow> \<not> blank (normalizeKeyName k)"
proof (cases k rule: normalizeKeyName_cases)
  case Alias
  then show ?thesis by (auto simp: blank_def isWhitespace_def)
next
  case Single
  assume "\<not> blank k"
  then show ?thesis
    using Single by (simp add: blank_def toUpperCase_def list_all_iff)
next
  case Other
  then show "\<not> blank k \<Longrightarrow> ?thesis" by simp
qed

lemma toUpperCase_no_plus: "CHR ''+'' \<notin> set k \<Longrightarrow> CHR ''+'' \<notin> set (toUpperCase k)"
  by (induction k) (auto simp: toUpperCase_def)

lemma normalizeKeyName_no_plus:
  "CHR ''+'' \<notin> set k \<Longrightarrow> CHR ''+'' \<notin> set (normalizeKeyName k)"
proof (cases k rule: normalizeKeyName_cases)
  case Alias
  then show ?thesis by auto
next
  case Single
  assume "CHR ''+'' \<notin> set k"
  then show ?thesis
    using Single by (simp add: toUpperCase_no_plus)
next
  case Other
  then show "CHR ''+'' \<notin> set k \<Longrightarrow> ?thesis" by simp
qed

lemma normalizeKeyName_no_modifier:
  "modifierOfToken p k = None \<Longrightarrow> modifierOfToken p (normalizeKeyName k) = None"
proof (cases k rule: normalizeKeyName_cases)
  case Alias
  then show ?thesis by auto
next
  case Single
  then show ?thesis by (simp add: modifierOfToken_single)
next
  case Other
  then show "modifierOfToken p k = None \<Longrightarrow> ?thesis" by simp
qed


section \<open>Parsing the canonical string again\<close>

lemma parseString_key:
  assumes "parseString s p = Inr h"
  shows "\<exists>k. key h = normalizeKeyName k \<and> \<not> blank k \<and> modifierOfToken p k = None
    \<and> CHR ''+'' \<notin> set k"
proof -
  let ?tokens = "splitOn (CHR ''+'') s"
  let ?keys = "filter (\<lambda>t. modifierOfToken p t = None) ?tokens"
  from assms obtain k where k: "rev ?keys = [k]" "\<not> blank k" "key h = normalizeKeyName k"
    by (auto simp: parseString_def Let_def split: if_splits list.splits)
  from k(1) have "?keys = [k]"
    by (metis rev_singleton_conv)
  then have "k \<in> set ?keys"
    by simp
  then have "k \<in> set ?tokens" "modifierOfToken p k = None"
    by simp_all
  with k(2,3) splitOn_tokens [of k "CHR ''+''" s] show ?thesis
    by blast
qed

lemma parseRaw_key:
  assumes "parseRaw r p = Inr h"
  shows "key h = normalizeKeyName (rawKey r) \<and> \<not> blank (rawKey r)"
  using assms by (auto simp: parseRaw_def split: if_splits)

lemma canonical_reparse:
  assumes "\<not> blank (key h)" and "CHR ''+'' \<notin> set (key h)"
    and "modifierOfToken p (key h) = None" and "normalizeKeyName (key h) = key h"
  shows "parseString (formatParsedHotkey h) p = Inr h"
proof -
  define ms where "ms = (if ctrl h then [''Control''] else []) @ (if alt h then [''Alt''] else [])
      @ (if shift h then [''Shift''] else []) @ (if meta h then [''Meta''] else [])"
  have fmt: "formatParsedHotkey h = joinPlus (ms @ [key h])"
    by (simp add: formatParsedHotkey_def ms_def)
  have "\<forall>t \<in> set (ms @ [key h]). CHR ''+'' \<notin> set t"
    using assms(2) by (auto simp: ms_def)
  then have tok: "splitOn (CHR ''+'') (formatParsedHotkey h) = ms @ [key h]"
    unfolding fmt by (intro splitOn_joinPlus) simp_all
  have nb: "\<not> blank (formatParsedHotkey h)"
    unfolding fmt using assms(1) by (rule blank_joinPlus)
  have fl: "filter (\<lambda>t. modifierOfToken p t = None) (ms @ [key h]) = [key h]"
    using assms(3) by (simp add: ms_def)
  have mf: "List.map_filter (modifierOfToken p) (ms @ [key h])
      = (if ctrl h then [Control] else []) @ (if alt h then [Alt] else [])
        @ (if shift h then [Shift] else []) @ (if meta h then [Meta] else [])"
    using assms(3) by (simp add: ms_def map_filter_def)
  have "parseString (formatParsedHotkey h) p
      = Inr \<lparr> key = key h, ctrl = ctrl h, shift = shift h, alt = alt h, meta = meta h \<rparr>"
    unfolding parseString_def Let_def tok fl mf using nb assms(1,4) by simp
  then show ?thesis by simp
qed

text \<open>
  Claim C9, as the model of the parser has it. Parsing the canonical string of a parsed
  hotkey gives the parsed hotkey again for every valid string descriptor, and for every
  valid structured descriptor whose canonical key has no \<^verbatim>\<open>+\<close> in it and is not the name
  of a modifier.
\<close>

theorem parse_format_parse:
  assumes "parse d p = Inr h"
    and "isString d \<or> (CHR ''+'' \<notin> set (key h) \<and> modifierOfToken p (key h) = None)"
  shows "parse (Str (formatParsedHotkey h)) p = Inr h"
proof (cases d)
  case (Str s)
  with assms(1) obtain k where k: "key h = normalizeKeyName k" "\<not> blank k"
      "modifierOfToken p k = None" "CHR ''+'' \<notin> set k"
    using parseString_key [of s p h] by auto
  then show ?thesis
    by (simp add: canonical_reparse normalizeKeyName_idem normalizeKeyName_not_blank
        normalizeKeyName_no_plus normalizeKeyName_no_modifier)
next
  case (Raw r)
  with assms(1) have "key h = normalizeKeyName (rawKey r)" "\<not> blank (rawKey r)"
    using parseRaw_key [of r p h] by auto
  moreover from Raw assms(2) have "CHR ''+'' \<notin> set (key h)" "modifierOfToken p (key h) = None"
    by simp_all
  ultimately show ?thesis
    by (simp add: canonical_reparse normalizeKeyName_idem normalizeKeyName_not_blank)
qed

theorem parse_format_parse_witness:
  "parse (Str ''Mod+Shift+Esc'') Mac
      = Inr \<lparr> key = ''Escape'', ctrl = False, shift = True, alt = False, meta = True \<rparr>
   \<and> isString (Str ''Mod+Shift+Esc'')
   \<and> formatParsedHotkey \<lparr> key = ''Escape'', ctrl = False, shift = True, alt = False, meta = True \<rparr>
      = ''Shift+Meta+Escape''
   \<and> parse (Str ''Shift+Meta+Escape'') Mac
      = Inr \<lparr> key = ''Escape'', ctrl = False, shift = True, alt = False, meta = True \<rparr>"
proof -
  let ?h = "\<lparr> key = ''Escape'', ctrl = False, shift = True, alt = False, meta = True \<rparr>"
  have h1: "parse (Str ''Mod+Shift+Esc'') Mac = Inr ?h"
    by code_simp
  have h2: "isString (Str ''Mod+Shift+Esc'')
      \<or> (CHR ''+'' \<notin> set (key ?h) \<and> modifierOfToken Mac (key ?h) = None)"
    by simp
  have f: "formatParsedHotkey ?h = ''Shift+Meta+Escape''"
    by code_simp
  from parse_format_parse [OF h1 h2] h1 f show ?thesis
    by simp
qed

text \<open>
  The claim as it is written speaks of every valid descriptor. The structured descriptor
  with the key \<^verbatim>\<open>+\<close> is valid; its canonical string is \<^verbatim>\<open>+\<close>, which splits into two empty
  tokens and does not parse.
\<close>

theorem plus_key_does_not_round_trip:
  "parse (Raw \<lparr> rawKey = ''+'', rawCtrl = False, rawShift = False, rawAlt = False,
                rawMeta = False, rawMod = False \<rparr>) Mac
      = Inr \<lparr> key = ''+'', ctrl = False, shift = False, alt = False, meta = False \<rparr>
   \<and> formatParsedHotkey \<lparr> key = ''+'', ctrl = False, shift = False, alt = False, meta = False \<rparr>
      = ''+''
   \<and> parse (Str ''+'') Mac = Inl (UnknownModifier [])"
  by code_simp

section \<open>The tests of the manager, on the model\<close>

text \<open>
  The tests that come with the manager (\<^verbatim>\<open>HotkeyManager\<close> of \<^verbatim>\<open>../src/manager\<close>), run on
  the example page: what \<^verbatim>\<open>expect\<close> checks there is what the model computes here.
\<close>

lemma test_registration:
  "getRegistrationCount (run page [CallRegister (Str ''Mod+S'') (1, []) noOptions] initialWorld) = 1
   \<and> getRegistrationCount (run page [CallRegister (Str ''Mod+S'') (1, []) noOptions,
        CallUnregister ''hotkey_1''] initialWorld) = 0
   \<and> getRegistrationCount (run page [CallRegister (Str ''Mod+S'') (1, []) noOptions,
        CallRegister (Str ''Mod+Z'') (2, []) noOptions] initialWorld) = 2
   \<and> hasInstance (run page [GetInstance, ResetInstance] initialWorld) = False"
  by code_simp

lemma test_event_handling:
  "trace (run page [CallRegister (Str ''Mod+S'') (1, []) noOptions,
        Dispatch 1 Document Keydown (keyEvent ''s'' True Document Document)] initialWorld)
     = [ConsultMatcher ''hotkey_1'', Invoke 1 ''hotkey_1'']
   \<and> trace (run page [CallRegister (Str ''Mod+S'') (1, []) noOptions,
        Dispatch 1 Document Keydown (keyEvent ''z'' True Document Document)] initialWorld)
     = [ConsultMatcher ''hotkey_1'']
   \<and> trace (run page [CallRegister (Str ''Mod+S'') (1, []) (noOptions\<lparr> optEnabled := Some False \<rparr>),
        Dispatch 1 Document Keydown (keyEvent ''s'' True Document Document)] initialWorld)
     = []
   \<and> trace (run page [CallRegister (Str ''Mod+S'') (1, []) (noOptions\<lparr> optEventType := Some Keyup \<rparr>),
        Dispatch 1 Document Keydown (keyEvent ''s'' True Document Document)] initialWorld)
     = []
   \<and> trace (run page [CallRegister (Str ''Mod+S'') (1, []) (noOptions\<lparr> optEventType := Some Keyup \<rparr>),
        Dispatch 1 Document Keydown (keyEvent ''s'' True Document Document),
        Dispatch 1 Document Keyup (keyEvent ''s'' True Document Document)] initialWorld)
     = [ConsultMatcher ''hotkey_1'', Invoke 1 ''hotkey_1'']"
  by code_simp

lemma test_requireReset:
  "trace (run page [CallRegister (Str ''Mod+S'') (1, []) (noOptions\<lparr> optRequireReset := Some True \<rparr>),
        Dispatch 1 Document Keydown (keyEvent ''s'' True Document Document),
        Dispatch 1 Document Keydown (keyEvent ''s'' True Document Document)] initialWorld)
     = [ConsultMatcher ''hotkey_1'', Invoke 1 ''hotkey_1'']
   \<and> trace (run page [CallRegister (Str ''Mod+S'') (1, []) (noOptions\<lparr> optRequireReset := Some True \<rparr>),
        Dispatch 1 Document Keydown (keyEvent ''s'' True Document Document),
        Dispatch 1 Document Keyup (keyEvent ''s'' True Document Document),
        Dispatch 1 Document Keydown (keyEvent ''s'' True Document Document)] initialWorld)
     = [ConsultMatcher ''hotkey_1'', Invoke 1 ''hotkey_1'',
        ConsultMatcher ''hotkey_1'', Invoke 1 ''hotkey_1'']"
  by code_simp

lemma test_preventDefault_stopPropagation:
  "trace (run page [CallRegister (Str ''Mod+S'') (1, []) (noOptions\<lparr> optPreventDefault := Some True \<rparr>),
        Dispatch 1 Document Keydown (keyEvent ''s'' True Document Document)] initialWorld)
     = [ConsultMatcher ''hotkey_1'', PreventDefault ''hotkey_1'', Invoke 1 ''hotkey_1'']
   \<and> trace (run page [CallRegister (Str ''Mod+S'') (1, []) (noOptions\<lparr> optStopPropagation := Some True \<rparr>),
        Dispatch 1 Document Keydown (keyEvent ''s'' True Document Document)] initialWorld)
     = [ConsultMatcher ''hotkey_1'', StopPropagation ''hotkey_1'', Invoke 1 ''hotkey_1'']"
  by code_simp

lemma test_ignoreInputs:
  "trace (run page [CallRegister (Str ''Mod+S'') (1, []) noOptions,
        Dispatch 1 Document Keydown (keyEvent ''s'' True (Element 2) Document)] initialWorld)
     = []
   \<and> trace (run page [CallRegister (Str ''Mod+S'') (1, []) (noOptions\<lparr> optIgnoreInputs := Some False \<rparr>),
        Dispatch 1 Document Keydown (keyEvent ''s'' True (Element 2) Document)] initialWorld)
     = [ConsultMatcher ''hotkey_1'', Invoke 1 ''hotkey_1'']
   \<and> trace (run page [CallRegister (Str ''Mod+S'') (1, []) (noOptions\<lparr> optTarget := Some (Element 2) \<rparr>),
        Dispatch 1 (Element 2) Keydown (keyEvent ''s'' True (Element 2) (Element 2))] initialWorld)
     = [ConsultMatcher ''hotkey_1'', Invoke 1 ''hotkey_1'']
   \<and> trace (run page [CallRegister (Str ''Mod+S'') (1, []) (noOptions\<lparr> optTarget := Some (Element 1) \<rparr>),
        Dispatch 1 (Element 1) Keydown (keyEvent ''s'' True (Element 2) (Element 1))] initialWorld)
     = []
   \<and> trace (run page [CallRegister (Str ''Mod+S'') (1, []) noOptions,
        Dispatch 1 Document Keydown (keyEvent ''s'' True (Element 3) Document)] initialWorld)
     = [ConsultMatcher ''hotkey_1'', Invoke 1 ''hotkey_1'']
   \<and> trace (run page [CallRegister (Str ''Mod+S'') (1, []) noOptions,
        CallRegister (Str ''Mod+Z'') (2, []) (noOptions\<lparr> optIgnoreInputs := Some False \<rparr>),
        Dispatch 2 Document Keydown (keyEvent ''s'' True (Element 2) Document),
        Dispatch 2 Document Keydown (keyEvent ''z'' True (Element 2) Document)] initialWorld)
     = [ConsultMatcher ''hotkey_2'', ConsultMatcher ''hotkey_2'', Invoke 2 ''hotkey_2'']"
  by code_simp

end
